theory Spec2Isabelle
  imports
    Main
    "HOL-Library.Sublist"
    "HOL-Library.Char_ord"
    "HOL-Library.List_Lexorder"
    "HOL-Library.Multiset"
begin

section \<open>Values, records and errors\<close>

text \<open>
  The script \<^verbatim>\<open>scripts/generate_phase8_migration.py\<close> works on what \<^verbatim>\<open>json.load\<close>
  returns: a list of dictionaries whose values are strings or \<^verbatim>\<open>None\<close> (JSON null).
  A string is a list of characters, each character standing for one code point below 256.
  A dictionary is a map from keys to values; a key that is not in the dictionary is mapped
  to \<open>None\<close> of the option type, and reading it raises \<^verbatim>\<open>KeyError\<close>.
\<close>

datatype pyval = PyNone | PyStr string

datatype error = KeyError pyval | TypeError

type_synonym policy = "string \<rightharpoonup> pyval"

text \<open>\<^verbatim>\<open>policy[key]\<close>\<close>

definition getitem :: "policy \<Rightarrow> string \<Rightarrow> error + pyval" where
  "getitem policy key =
     (case policy key of None \<Rightarrow> Inl (KeyError (PyStr key)) | Some v \<Rightarrow> Inr v)"

text \<open>Truth value of a value, as tested by \<^verbatim>\<open>if clause:\<close> and \<^verbatim>\<open>if not clause:\<close>.\<close>

fun truthy :: "pyval \<Rightarrow> bool" where
  "truthy PyNone = False"
| "truthy (PyStr s) = (s \<noteq> [])"

text \<open>What an f-string writes for \<^verbatim>\<open>{value}\<close>.\<close>

fun fmt :: "pyval \<Rightarrow> string" where
  "fmt PyNone = ''None''"
| "fmt (PyStr s) = s"

text \<open>What an f-string or \<^verbatim>\<open>str.format\<close> writes for a length: its decimal digits.\<close>

definition digit_char :: "nat \<Rightarrow> char" where
  "digit_char d = char_of (48 + d)"

fun fmt_nat :: "nat \<Rightarrow> string" where
  "fmt_nat n = (if n < 10 then [digit_char n] else fmt_nat (n div 10) @ [digit_char (n mod 10)])"

declare fmt_nat.simps [simp del]

section \<open>Regular-expression substitution\<close>

text \<open>
  \<^verbatim>\<open>\w\<close> on a \<^verbatim>\<open>str\<close> pattern: the characters for which \<^verbatim>\<open>str.isalnum\<close> holds, and the
  underscore. Below 256 these are the ASCII digits and letters, the underscore, and the
  Latin-1 letters, superscript digits and fractions.
\<close>

definition is_word_char :: "char \<Rightarrow> bool" where
  "is_word_char c =
     (let n = (of_char c :: nat) in
        (48 \<le> n \<and> n \<le> 57) \<or> (65 \<le> n \<and> n \<le> 90) \<or> n = 95 \<or> (97 \<le> n \<and> n \<le> 122) \<or>
        n = 170 \<or> n = 178 \<or> n = 179 \<or> n = 181 \<or> n = 185 \<or> n = 186 \<or>
        (188 \<le> n \<and> n \<le> 190) \<or> (192 \<le> n \<and> n \<le> 214) \<or> (216 \<le> n \<and> n \<le> 246) \<or>
        248 \<le> n)"

text \<open>
  \<^verbatim>\<open>\b\<close> at a position, given the text before it and the text from it on: exactly one of
  the two neighbouring characters is a word character (the ends of the string count as
  non-word).
\<close>

definition word_boundary :: "string \<Rightarrow> string \<Rightarrow> bool" where
  "word_boundary pre rest =
     ((pre \<noteq> [] \<and> is_word_char (last pre)) \<noteq> (rest \<noteq> [] \<and> is_word_char (hd rest)))"

text \<open>
  \<^verbatim>\<open>re.sub(pattern, repl, string)\<close> for a pattern made of zero-width assertions (the
  guard, which sees the text before and from the position) followed by a non-empty literal:
  the string is scanned from the left; at a position where the guard holds and the literal
  follows, the replacement is written and the scan goes on behind the literal; elsewhere the
  character is copied. The argument \<open>pre\<close> is the part of the string already scanned.
  The script's patterns are all non-empty; for an empty literal nothing is replaced here.
\<close>

function re_sub ::
  "(string \<Rightarrow> string \<Rightarrow> bool) \<Rightarrow> string \<Rightarrow> string \<Rightarrow> string \<Rightarrow> string \<Rightarrow> string" where
  "re_sub guard pat repl pre [] = []"
| "re_sub guard pat repl pre (c # cs) =
     (if pat \<noteq> [] \<and> guard pre (c # cs) \<and> prefix pat (c # cs)
      then repl @ re_sub guard pat repl (pre @ pat) (drop (length pat) (c # cs))
      else c # re_sub guard pat repl (pre @ [c]) cs)"
  by pat_completeness auto
termination
  by (relation "measure (\<lambda>(guard, pat, repl, pre, s). length s)") auto

text \<open>The assertions \<^verbatim>\<open>(?<!\(SELECT )\b\<close> of the first pattern.\<close>

definition auth_guard :: "string \<Rightarrow> string \<Rightarrow> bool" where
  "auth_guard pre rest = (\<not> suffix ''(SELECT '' pre \<and> word_boundary pre rest)"

text \<open>The other patterns are plain literals.\<close>

definition no_guard :: "string \<Rightarrow> string \<Rightarrow> bool" where
  "no_guard pre rest = True"

section \<open>The clause optimizer\<close>

text \<open>The five substitutions of \<^verbatim>\<open>optimize_clause\<close>, in the order of the source.\<close>

definition wrap_auth_uid :: "string \<Rightarrow> string" where
  "wrap_auth_uid clause = re_sub auth_guard ''auth.uid()'' ''(SELECT auth.uid())'' [] clause"

definition wrap_has_role :: "string \<Rightarrow> string" where
  "wrap_has_role clause =
     re_sub no_guard ''has_role(auth.uid()'' ''has_role((SELECT auth.uid())'' [] clause"

definition wrap_is_dev_admin :: "string \<Rightarrow> string" where
  "wrap_is_dev_admin clause =
     re_sub no_guard ''is_dev_admin(auth.uid()'' ''is_dev_admin((SELECT auth.uid())'' [] clause"

definition wrap_has_permission :: "string \<Rightarrow> string" where
  "wrap_has_permission clause =
     re_sub no_guard ''has_permission(auth.uid()'' ''has_permission((SELECT auth.uid())'' []
       clause"

definition wrap_is_event_manager :: "string \<Rightarrow> string" where
  "wrap_is_event_manager clause =
     re_sub no_guard ''is_event_manager(auth.uid()'' ''is_event_manager((SELECT auth.uid())'' []
       clause"

fun optimize_clause :: "pyval \<Rightarrow> pyval" where
  "optimize_clause PyNone = PyNone"
| "optimize_clause (PyStr clause) =
     (if clause = [] then PyNone
      else PyStr (wrap_is_event_manager (wrap_has_permission (wrap_is_dev_admin
             (wrap_has_role (wrap_auth_uid clause))))))"

section \<open>The statement of one policy\<close>

definition generate_policy_sql :: "policy \<Rightarrow> error + string" where
  \<open>generate_policy_sql policy =
     (case getitem policy ''tablename'' of Inl e \<Rightarrow> Inl e | Inr tablename \<Rightarrow>
     (case getitem policy ''policyname'' of Inl e \<Rightarrow> Inl e | Inr policyname \<Rightarrow>
     (case getitem policy ''cmd'' of Inl e \<Rightarrow> Inl e | Inr cmd \<Rightarrow>
     (case getitem policy ''using_clause'' of Inl e \<Rightarrow> Inl e | Inr u \<Rightarrow>
     (case getitem policy ''with_check_clause'' of Inl e \<Rightarrow> Inl e | Inr w \<Rightarrow>
        (let using_clause = optimize_clause u;
             with_check_clause = optimize_clause w;
             sql = ''DROP POLICY IF EXISTS "'' @ fmt policyname @ ''" ON '' @ fmt tablename
                     @ '';\<newline>'';
             sql = sql @ ''CREATE POLICY "'' @ fmt policyname @ ''"\<newline>'';
             sql = sql @ ''  ON '' @ fmt tablename @ '' FOR '' @ fmt cmd @ ''\<newline>'';
             sql = (if truthy using_clause
                    then sql @ ''  USING (\<newline>    '' @ fmt using_clause @ ''\<newline>  )''
                    else sql);
             sql = (if truthy with_check_clause
                    then sql @ ''\<newline>  WITH CHECK (\<newline>    '' @ fmt with_check_clause
                           @ ''\<newline>  )''
                    else sql);
             sql = sql @ '';\<newline>''
         in Inr sql))))))\<close>

section \<open>The migration document\<close>

text \<open>
  The dictionary \<^verbatim>\<open>tables\<close> keeps its keys in the order of their insertion; it is a list
  of pairs of a key and its bucket, with no key twice.
\<close>

type_synonym tables = "(pyval \<times> policy list) list"

text \<open>\<^verbatim>\<open>if tablename not in tables: tables[tablename] = []\<close>\<close>

definition setdefault_empty :: "tables \<Rightarrow> pyval \<Rightarrow> tables" where
  "setdefault_empty tables tablename =
     (if tablename \<in> fst ` set tables then tables else tables @ [(tablename, [])])"

text \<open>\<^verbatim>\<open>tables[tablename].append(policy)\<close>\<close>

definition bucket_append :: "tables \<Rightarrow> pyval \<Rightarrow> policy \<Rightarrow> tables" where
  "bucket_append tables tablename policy =
     map (\<lambda>(k, bucket). if k = tablename then (k, bucket @ [policy]) else (k, bucket)) tables"

text \<open>The grouping loop.\<close>

fun group_policies :: "tables \<Rightarrow> policy list \<Rightarrow> error + tables" where
  "group_policies tables [] = Inr tables"
| "group_policies tables (policy # policies) =
     (case getitem policy ''tablename'' of
        Inl e \<Rightarrow> Inl e
      | Inr tablename \<Rightarrow>
          group_policies (bucket_append (setdefault_empty tables tablename) tablename policy)
            policies)"

text \<open>
  \<^verbatim>\<open>sorted(tables.keys())\<close>: strings are compared by code points, lexicographically. Comparing
  \<^verbatim>\<open>None\<close> with a string raises \<^verbatim>\<open>TypeError\<close>; a list of fewer than two keys is sorted
  without any comparison.
\<close>

fun the_strs :: "pyval list \<Rightarrow> string list option" where
  "the_strs [] = Some []"
| "the_strs (PyNone # vs) = None"
| "the_strs (PyStr s # vs) = (case the_strs vs of None \<Rightarrow> None | Some ss \<Rightarrow> Some (s # ss))"

definition sorted_keys :: "pyval list \<Rightarrow> error + pyval list" where
  "sorted_keys keys =
     (if length keys < 2 then Inr keys
      else case the_strs keys of None \<Rightarrow> Inl TypeError | Some ss \<Rightarrow> Inr (map PyStr (sort ss)))"

definition header :: "nat \<Rightarrow> nat \<Rightarrow> string" where
  \<open>header count' table_count =
     ''-- ============================================================================\<newline>'' @
     ''-- RLS Policy Optimization - Phase 8: COMPLETE DATABASE OPTIMIZATION\<newline>'' @
     ''-- ============================================================================\<newline>'' @
     ''--\<newline>'' @
     ''-- This migration fixes ALL remaining unoptimized RLS policies in the database.\<newline>'' @
     ''-- Total: '' @ fmt_nat count' @ '' policies across '' @ fmt_nat table_count
       @ '' tables\<newline>'' @
     ''--\<newline>'' @
     ''-- Pattern: Wrap ALL auth.uid(), has_role(), is_dev_admin() calls in (SELECT ...)\<newline>'' @
     ''-- to ensure per-query evaluation instead of per-row evaluation.\<newline>'' @
     ''--\<newline>'' @
     ''-- Performance Impact: 10-100x faster queries, eliminates all performance warnings\<newline>'' @
     ''-- ============================================================================\<newline>'' @
     ''\<newline>''\<close>

definition banner :: "pyval \<Rightarrow> nat \<Rightarrow> string" where
  \<open>banner tablename n =
     ''-- ----------------------------------------------------------------------------\<newline>'' @
     ''-- TABLE: '' @ fmt tablename @ '' ('' @ fmt_nat n @ '' policies)\<newline>'' @
     ''-- ----------------------------------------------------------------------------\<newline>\<newline>''\<close>

definition footer :: string where
  \<open>footer =
     ''-- ============================================================================\<newline>'' @
     ''-- End of Phase 8 Migration\<newline>'' @
     ''-- ============================================================================\<newline>'' @
     ''--\<newline>'' @
     ''-- Verification: Run this query to confirm no unoptimized policies remain\<newline>'' @
     ''--\<newline>'' @
     ''-- SELECT COUNT(*) as remaining_unoptimized\<newline>'' @
     ''-- FROM pg_policies\<newline>'' @
     ''-- WHERE schemaname = 'public'\<newline>'' @
     ''--   AND (\<newline>'' @
     ''--     qual LIKE '%auth.uid()%'\<newline>'' @
     ''--     OR qual LIKE '%has_role(auth.uid()%'\<newline>'' @
     ''--     OR qual LIKE '%is_dev_admin(auth.uid()%'\<newline>'' @
     ''--   )\<newline>'' @
     ''--   AND (\<newline>'' @
     ''--     qual NOT LIKE '%(SELECT auth.uid())%'\<newline>'' @
     ''--     AND COALESCE(with_check, '' @ [CHR 0x27, CHR 0x27]
       @ '') NOT LIKE '%(SELECT auth.uid())%'\<newline>'' @
     ''--   );\<newline>'' @
     ''--\<newline>'' @
     ''-- Expected result: 0\<newline>'' @
     ''-- ============================================================================\<newline>''\<close>

text \<open>The inner loop: the statements of one table, each followed by an empty line.\<close>

fun emit_policies :: "string \<Rightarrow> policy list \<Rightarrow> error + string" where
  "emit_policies migration_sql [] = Inr migration_sql"
| "emit_policies migration_sql (policy # table_policies) =
     (case generate_policy_sql policy of
        Inl e \<Rightarrow> Inl e
      | Inr sql \<Rightarrow> emit_policies (migration_sql @ sql @ ''\<newline>'') table_policies)"

text \<open>\<^verbatim>\<open>tables[tablename]\<close>\<close>

definition getbucket :: "tables \<Rightarrow> pyval \<Rightarrow> error + policy list" where
  "getbucket tables tablename =
     (case map_of tables tablename of
        None \<Rightarrow> Inl (KeyError tablename)
      | Some table_policies \<Rightarrow> Inr table_policies)"

text \<open>The outer loop over the sorted table names.\<close>

fun emit_tables :: "tables \<Rightarrow> string \<Rightarrow> pyval list \<Rightarrow> error + string" where
  "emit_tables tables migration_sql [] = Inr migration_sql"
| "emit_tables tables migration_sql (tablename # tablenames) =
     (case getbucket tables tablename of
        Inl e \<Rightarrow> Inl e
      | Inr table_policies \<Rightarrow>
          (case emit_policies (migration_sql @ banner tablename (length table_policies))
                  table_policies of
             Inl e \<Rightarrow> Inl e
           | Inr migration_sql' \<Rightarrow> emit_tables tables migration_sql' tablenames))"

text \<open>
  \<^verbatim>\<open>main\<close>, from the loaded list of policies to the text written to the output file.
  Reading the input, writing the output and the progress messages are left out.
\<close>

definition main :: "policy list \<Rightarrow> error + string" where
  "main policies =
     (case group_policies [] policies of
        Inl e \<Rightarrow> Inl e
      | Inr tables \<Rightarrow>
          (case sorted_keys (map fst tables) of
             Inl e \<Rightarrow> Inl e
           | Inr tablenames \<Rightarrow>
               (case emit_tables tables (header (length policies) (length tables)) tablenames of
                  Inl e \<Rightarrow> Inl e
                | Inr migration_sql \<Rightarrow> Inr (migration_sql @ footer))))"

section \<open>Notions used in the proofs\<close>

text \<open>
  \<open>matches_in guard pat pre s\<close>: the pattern matches at some position of \<open>s\<close>, where \<open>pre\<close>
  is the text before \<open>s\<close>.
\<close>

fun matches_in :: "(string \<Rightarrow> string \<Rightarrow> bool) \<Rightarrow> string \<Rightarrow> string \<Rightarrow> string \<Rightarrow> bool" where
  "matches_in guard pat pre [] = False"
| "matches_in guard pat pre (c # cs) =
     ((guard pre (c # cs) \<and> prefix pat (c # cs)) \<or> matches_in guard pat (pre @ [c]) cs)"

text \<open>
  Two texts before a position agree on every suffix that has no closing parenthesis. The
  assertions of the first pattern cannot tell such texts apart.
\<close>

definition same_context :: "string \<Rightarrow> string \<Rightarrow> bool" where
  "same_context pre pre' = (\<forall>x. CHR '')'' \<notin> set x \<longrightarrow> suffix x pre = suffix x pre')"

text \<open>
  The optimizer with its first substitution only, to be compared with \<open>optimize_clause\<close>.
\<close>

fun optimize_clause_rule1_only :: "pyval \<Rightarrow> pyval" where
  "optimize_clause_rule1_only PyNone = PyNone"
| "optimize_clause_rule1_only (PyStr clause) =
     (if clause = [] then PyNone else PyStr (wrap_auth_uid clause))"

text \<open>The keys that \<open>generate_policy_sql\<close> reads, in the order in which it reads them.\<close>

definition required_keys :: "string list" where
  "required_keys = [''tablename'', ''policyname'', ''cmd'', ''using_clause'', ''with_check_clause'']"

text \<open>A policy belongs to a table when its \<^verbatim>\<open>tablename\<close> is that table's name.\<close>

definition on_table :: "pyval \<Rightarrow> policy \<Rightarrow> bool" where
  "on_table tablename policy = (policy ''tablename'' = Some tablename)"

text \<open>The table names that occur in a list of policies.\<close>

definition table_names :: "policy list \<Rightarrow> pyval set" where
  "table_names policies = set (List.map_filter (\<lambda>policy. policy ''tablename'') policies)"

text \<open>The bucket of a table name in the dictionary, empty when the name is not a key.\<close>

definition bucket_of :: "tables \<Rightarrow> pyval \<Rightarrow> policy list" where
  "bucket_of tables tablename = (case map_of tables tablename of None \<Rightarrow> [] | Some b \<Rightarrow> b)"

text \<open>The statement that \<open>generate_policy_sql\<close> returns for a policy.\<close>

definition statement :: "policy \<Rightarrow> string" where
  "statement policy = (case generate_policy_sql policy of Inl e \<Rightarrow> [] | Inr sql \<Rightarrow> sql)"

text \<open>The order in which \<^verbatim>\<open>sorted\<close> puts two table names: both strings, the first smaller.\<close>

fun key_less :: "pyval \<Rightarrow> pyval \<Rightarrow> bool" where
  "key_less (PyStr a) (PyStr b) = (a < b)"
| "key_less a b = False"

text \<open>
  What the document holds for one table: the banner with the number of the table's policies,
  then their statements in the order of the input, each followed by an empty line.
\<close>

definition table_section :: "policy list \<Rightarrow> pyval \<Rightarrow> string" where
  "table_section policies tablename =
     banner tablename (length (filter (on_table tablename) policies)) @
     concat (map (\<lambda>policy. statement policy @ ''\<newline>'') (filter (on_table tablename) policies))"

text \<open>The number that a string of decimal digits denotes.\<close>

definition decimal_value :: "string \<Rightarrow> nat" where
  "decimal_value s = foldl (\<lambda>a c. 10 * a + (of_char c - 48)) 0 s"

section \<open>Example inputs\<close>

text \<open>
  The record
  \<^verbatim>\<open>{"tablename":"orders","policyname":"p1","cmd":"SELECT",
    "using_clause":"auth.uid() = user_id","with_check_clause":null}\<close>.
\<close>

definition round_trip_policy :: policy where
  "round_trip_policy =
     [''tablename'' \<mapsto> PyStr ''orders'', ''policyname'' \<mapsto> PyStr ''p1'',
      ''cmd'' \<mapsto> PyStr ''SELECT'', ''using_clause'' \<mapsto> PyStr ''auth.uid() = user_id'',
      ''with_check_clause'' \<mapsto> PyNone]"

text \<open>The same record without the key \<^verbatim>\<open>with_check_clause\<close>.\<close>

definition no_check_key_policy :: policy where
  "no_check_key_policy =
     [''tablename'' \<mapsto> PyStr ''orders'', ''policyname'' \<mapsto> PyStr ''p1'',
      ''cmd'' \<mapsto> PyStr ''SELECT'', ''using_clause'' \<mapsto> PyStr ''auth.uid() = user_id'']"

text \<open>Two policies on the table \<^verbatim>\<open>orders\<close> and one on the table \<^verbatim>\<open>accounts\<close>.\<close>

definition orders_policy_1 :: policy where
  "orders_policy_1 =
     [''tablename'' \<mapsto> PyStr ''orders'', ''policyname'' \<mapsto> PyStr ''read_own'',
      ''cmd'' \<mapsto> PyStr ''SELECT'', ''using_clause'' \<mapsto> PyStr ''auth.uid() = user_id'',
      ''with_check_clause'' \<mapsto> PyNone]"

definition orders_policy_2 :: policy where
  "orders_policy_2 =
     [''tablename'' \<mapsto> PyStr ''orders'', ''policyname'' \<mapsto> PyStr ''add_own'',
      ''cmd'' \<mapsto> PyStr ''INSERT'', ''using_clause'' \<mapsto> PyNone,
      ''with_check_clause'' \<mapsto> PyStr ''auth.uid() = user_id'']"

definition accounts_policy :: policy where
  "accounts_policy =
     [''tablename'' \<mapsto> PyStr ''accounts'', ''policyname'' \<mapsto> PyStr ''admins'',
      ''cmd'' \<mapsto> PyStr ''ALL'', ''using_clause'' \<mapsto> PyStr ''is_dev_admin(auth.uid())'',
      ''with_check_clause'' \<mapsto> PyStr []]"

section \<open>Substitution: general facts\<close>

text \<open>Where the pattern matches nowhere, the substitution returns its input.\<close>

lemma re_sub_no_match:
  "\<not> matches_in guard pat pre s \<Longrightarrow> re_sub guard pat repl pre s = s"
  by (induction s arbitrary: pre) auto

text \<open>The pattern matches somewhere exactly when the text has an occurrence that passes the guard.\<close>

lemma matches_in_occurrence:
  "guard (pre @ u) (pat @ v) \<Longrightarrow> pat \<noteq> [] \<Longrightarrow> matches_in guard pat pre (u @ pat @ v)"
proof (induction u arbitrary: pre)
  case Nil
  then show ?case by (cases pat) auto
next
  case (Cons c u)
  from Cons.IH [of "pre @ [c]"] Cons.prems show ?case by simp
qed

lemma matches_in_split:
  "matches_in guard pat pre s \<Longrightarrow> \<exists>u v. s = u @ pat @ v \<and> guard (pre @ u) (pat @ v)"
proof (induction s arbitrary: pre)
  case Nil
  then show ?case by simp
next
  case (Cons c cs)
  show ?case
  proof (cases "guard pre (c # cs) \<and> prefix pat (c # cs)")
    case True
    then obtain v where "c # cs = pat @ v" by (auto simp: prefix_def)
    with True show ?thesis by (intro exI [of _ "[]"] exI [of _ v]) simp
  next
    case False
    with Cons.prems have "matches_in guard pat (pre @ [c]) cs" by simp
    from Cons.IH [OF this] obtain u v where "cs = u @ pat @ v" "guard (pre @ c # u) (pat @ v)"
      by auto
    then show ?thesis by (intro exI [of _ "c # u"] exI [of _ v]) simp
  qed
qed

lemma same_context_refl: "same_context pre pre"
  by (simp add: same_context_def)

lemma same_context_snoc: "same_context pre pre' \<Longrightarrow> same_context (pre @ [c]) (pre' @ [c])"
  by (auto simp: same_context_def)

lemma same_context_paren:
  "same_context (pre @ u @ [CHR '')'']) (pre' @ u' @ [CHR '')''])"
  unfolding same_context_def
proof (intro allI impI)
  fix x :: string assume "CHR '')'' \<notin> set x"
  then show "suffix x (pre @ u @ [CHR '')'']) = suffix x (pre' @ u' @ [CHR '')''])"
    using suffix_snoc [of x "pre @ u" "CHR '')''"] suffix_snoc [of x "pre' @ u'" "CHR '')''"]
    by auto
qed

lemma not_word_paren: "\<not> is_word_char CHR '')''" "\<not> is_word_char CHR ''(''" "is_word_char CHR ''a''"
  by (simp_all add: is_word_char_def)

lemma same_context_last_word:
  assumes "same_context pre pre'"
  shows "(pre \<noteq> [] \<and> is_word_char (last pre)) = (pre' \<noteq> [] \<and> is_word_char (last pre'))"
proof -
  have *: "p' \<noteq> [] \<and> is_word_char (last p')"
    if "same_context p p'" "p \<noteq> []" "is_word_char (last p)" for p p'
  proof -
    from that have "CHR '')'' \<notin> set [last p]" using not_word_paren by auto
    moreover have "suffix [last p] p" using that(2) by (metis append_butlast_last_id suffixI)
    ultimately have "suffix [last p] p'" using that(1) by (simp add: same_context_def)
    then show ?thesis using that(3) by (auto simp: suffix_def)
  qed
  have "same_context pre' pre" using assms by (simp add: same_context_def)
  with * [of pre pre'] * [of pre' pre] assms show ?thesis by blast
qed

lemma same_context_guard:
  "same_context pre pre' \<Longrightarrow> auth_guard pre rest = auth_guard pre' rest"
  using same_context_last_word [of pre pre']
  by (simp add: auth_guard_def word_boundary_def same_context_def)


lemma auth_suffix_not_wrapped:
  assumes "suffix x ''auth.uid()''" "x \<noteq> []" "prefix x (''(SELECT auth.uid())'' @ t)"
  shows False
proof -
  from assms(1) have "x \<in> set (suffixes ''auth.uid()'')" by (simp only: in_set_suffixes)
  with assms(2,3) show False by (auto simp del: in_set_suffixes)
qed

lemma auth_guard_hd: "auth_guard pre (c # a) = auth_guard pre (c # b)"
  by (simp add: auth_guard_def word_boundary_def)

text \<open>
  The three ways a substitution can start: on the empty string, with a match, or by copying
  one character.
\<close>

lemma re_sub_step [case_names Nil Match Copy]:
  obtains "s = []"
  | v where "pat \<noteq> []" "s = pat @ v" "guard pre s"
      "re_sub guard pat repl pre s = repl @ re_sub guard pat repl (pre @ pat) v"
  | c cs where "s = c # cs" "\<not> (pat \<noteq> [] \<and> guard pre s \<and> prefix pat s)"
      "re_sub guard pat repl pre s = c # re_sub guard pat repl (pre @ [c]) cs"
proof (cases s)
  case Nil
  then show ?thesis by (rule that(1))
next
  case (Cons c cs)
  show ?thesis
  proof (cases "pat \<noteq> [] \<and> guard pre s \<and> prefix pat s")
    case True
    then obtain v where v: "s = pat @ v" by (auto simp: prefix_def)
    then have "drop (length pat) (c # cs) = v" using Cons by simp
    with True Cons v have "re_sub guard pat repl pre s = repl @ re_sub guard pat repl (pre @ pat) v"
      by simp
    with True v show ?thesis by (intro that(2)) simp_all
  next
    case False
    with Cons have "re_sub guard pat repl pre s = c # re_sub guard pat repl (pre @ [c]) cs"
      by auto
    with False Cons show ?thesis by (intro that(3))
  qed
qed

text \<open>
  If the output of the first substitution starts with a suffix of \<^verbatim>\<open>auth.uid()\<close>, then so does
  its input: a replacement starts with \<^verbatim>\<open>(S\<close>, which is in no such suffix.
\<close>

lemma re_sub_auth_prefix:
  "suffix x ''auth.uid()'' \<Longrightarrow>
   prefix x (re_sub auth_guard ''auth.uid()'' ''(SELECT auth.uid())'' pre s) \<Longrightarrow> prefix x s"
proof (induction s arbitrary: pre x rule: length_induct)
  case (1 s)
  show ?case
  proof (cases rule: re_sub_step [where s = s and pat = "''auth.uid()''" and guard = auth_guard
        and pre = pre and repl = "''(SELECT auth.uid())''"])
    case Nil
    with "1.prems" show ?thesis by simp
  next
    case (Match v)
    with "1.prems" have "x = []"
      using auth_suffix_not_wrapped [of x] by metis
    then show ?thesis by simp
  next
    case (Copy c cs)
    show ?thesis
    proof (cases x)
      case Nil
      then show ?thesis by simp
    next
      case (Cons d x')
      with "1.prems"(2) Copy(3) have "d = c"
        and "prefix x' (re_sub auth_guard ''auth.uid()'' ''(SELECT auth.uid())'' (pre @ [c]) cs)"
        by simp_all
      moreover from "1.prems"(1) Cons have "suffix x' ''auth.uid()''"
        by (auto dest: suffix_ConsD)
      ultimately have "prefix x' cs"
        using "1.IH" Copy(1) by auto
      with \<open>d = c\<close> Cons Copy(1) show ?thesis by simp
    qed
  qed
qed

lemma matches_in_wrapped:
  "matches_in auth_guard ''auth.uid()'' pre (''(SELECT auth.uid())'' @ t) =
   matches_in auth_guard ''auth.uid()'' (pre @ ''(SELECT auth.uid())'') t"
proof -
  have "suffix ''(SELECT '' (pre @ ''(SELECT '')"
    by (intro suffix_appendI suffix_order.refl)
  then show ?thesis by (simp add: auth_guard_def)
qed

lemma same_context_replaced:
  "same_context (pre @ ''auth.uid()'') (pre' @ ''(SELECT auth.uid())'')"
  using same_context_paren [of pre "''auth.uid(''" pre' "''(SELECT auth.uid()''"] by simp

lemma same_context_matched:
  "same_context (pre @ ''auth.uid()'') (pre' @ ''auth.uid()'')"
  using same_context_paren [of pre "''auth.uid(''" pre' "''auth.uid(''"] by simp

lemma length_auth_append: "length v < length (''auth.uid()'' @ v)"
  by simp

text \<open>
  In the output of the first substitution its pattern matches nowhere: an occurrence of
  \<^verbatim>\<open>auth.uid()\<close> in the output is either one that was written, behind \<^verbatim>\<open>(SELECT \<close>, or one
  that was copied, and then the assertions failed on the input and fail on the output.
\<close>

lemma wrap_output_quiet:
  "same_context pre pre' \<Longrightarrow>
   \<not> matches_in auth_guard ''auth.uid()'' pre'
       (re_sub auth_guard ''auth.uid()'' ''(SELECT auth.uid())'' pre s)"
proof (induction s arbitrary: pre pre' rule: length_induct)
  case (1 s)
  show ?case
  proof (cases rule: re_sub_step [where s = s and pat = "''auth.uid()''" and guard = auth_guard
        and pre = pre and repl = "''(SELECT auth.uid())''"])
    case Nil
    then show ?thesis by simp
  next
    case (Match v)
    have "length v < length s" unfolding Match(2) by (rule length_auth_append)
    with "1.IH" same_context_replaced
    have q: "\<not> matches_in auth_guard ''auth.uid()'' (pre' @ ''(SELECT auth.uid())'')
              (re_sub auth_guard ''auth.uid()'' ''(SELECT auth.uid())'' (pre @ ''auth.uid()'') v)"
      by blast
    show ?thesis unfolding Match(4) matches_in_wrapped by (rule q)
  next
    case (Copy c cs)
    let ?out = "re_sub auth_guard ''auth.uid()'' ''(SELECT auth.uid())'' (pre @ [c]) cs"
    have "\<not> matches_in auth_guard ''auth.uid()'' (pre' @ [c]) ?out"
      using "1.IH" Copy(1) same_context_snoc [OF "1.prems"] by simp
    moreover have "\<not> (auth_guard pre' (c # ?out) \<and> prefix ''auth.uid()'' (c # ?out))"
    proof
      assume a: "auth_guard pre' (c # ?out) \<and> prefix ''auth.uid()'' (c # ?out)"
      then have "prefix ''auth.uid()'' s"
        using re_sub_auth_prefix [of "''auth.uid()''" pre s] Copy(3) by (metis suffix_order.refl)
      moreover have "auth_guard pre s"
        using a same_context_guard [OF "1.prems"] auth_guard_hd [of pre c cs ?out] Copy(1)
        by metis
      ultimately show False using Copy(2) by blast
    qed
    ultimately show ?thesis unfolding Copy(3) by (simp only: matches_in.simps) blast
  qed
qed

text \<open>The first substitution does not depend on the text before, up to \<open>same_context\<close>.\<close>

lemma re_sub_same_context:
  "same_context pre pre' \<Longrightarrow>
   re_sub auth_guard ''auth.uid()'' ''(SELECT auth.uid())'' pre s =
   re_sub auth_guard ''auth.uid()'' ''(SELECT auth.uid())'' pre' s"
proof (induction s arbitrary: pre pre' rule: length_induct)
  case (1 s)
  note g = same_context_guard [OF "1.prems", of s]
  show ?case
  proof (cases rule: re_sub_step [where s = s and pat = "''auth.uid()''" and guard = auth_guard
        and pre = pre and repl = "''(SELECT auth.uid())''"])
    case Nil
    then show ?thesis by simp
  next
    case (Match v)
    have "length v < length s" unfolding Match(2) by (rule length_auth_append)
    with "1.IH" same_context_matched
    have "re_sub auth_guard ''auth.uid()'' ''(SELECT auth.uid())'' (pre @ ''auth.uid()'') v =
          re_sub auth_guard ''auth.uid()'' ''(SELECT auth.uid())'' (pre' @ ''auth.uid()'') v"
      by blast
    moreover have "re_sub auth_guard ''auth.uid()'' ''(SELECT auth.uid())'' pre' s =
        ''(SELECT auth.uid())'' @
        re_sub auth_guard ''auth.uid()'' ''(SELECT auth.uid())'' (pre' @ ''auth.uid()'') v"
      using Match(1,2,3) g
      by (cases rule: re_sub_step [where s = s and pat = "''auth.uid()''" and guard = auth_guard
            and pre = pre' and repl = "''(SELECT auth.uid())''"]) auto
    ultimately show ?thesis using Match(4) by simp
  next
    case (Copy c cs)
    have "re_sub auth_guard ''auth.uid()'' ''(SELECT auth.uid())'' (pre @ [c]) cs =
          re_sub auth_guard ''auth.uid()'' ''(SELECT auth.uid())'' (pre' @ [c]) cs"
      using "1.IH" Copy(1) same_context_snoc [OF "1.prems"] by simp
    moreover have "re_sub auth_guard ''auth.uid()'' ''(SELECT auth.uid())'' pre' s =
        c # re_sub auth_guard ''auth.uid()'' ''(SELECT auth.uid())'' (pre' @ [c]) cs"
      using Copy(1,2) g
      by (cases rule: re_sub_step [where s = s and pat = "''auth.uid()''" and guard = auth_guard
            and pre = pre' and repl = "''(SELECT auth.uid())''"]) auto
    ultimately show ?thesis using Copy(3) by simp
  qed
qed


lemma re_sub_nonempty: "s \<noteq> [] \<Longrightarrow> repl \<noteq> [] \<Longrightarrow> re_sub guard pat repl pre s \<noteq> []"
  by (cases s) auto

lemma wrap_auth_uid_idem: "wrap_auth_uid (wrap_auth_uid s) = wrap_auth_uid s"
  unfolding wrap_auth_uid_def
  by (intro re_sub_no_match wrap_output_quiet same_context_refl)

lemma auth_guard_after_paren: "auth_guard (p @ ''('') (''auth.uid()'' @ v)"
  by (simp add: auth_guard_def word_boundary_def is_word_char_def)

text \<open>
  Each of the four helper patterns ends with \<^verbatim>\<open>(auth.uid()\<close>. Behind an opening parenthesis
  the assertions of the first pattern hold, so such an occurrence would be a match of the
  first pattern; its output has none.
\<close>

lemma helper_pattern_quiet:
  "\<not> matches_in no_guard (name @ ''('' @ ''auth.uid()'') [] (wrap_auth_uid s)"
proof
  assume "matches_in no_guard (name @ ''('' @ ''auth.uid()'') [] (wrap_auth_uid s)"
  from matches_in_split [OF this] obtain u v
    where "wrap_auth_uid s = u @ (name @ ''('' @ ''auth.uid()'') @ v" by blast
  then have "wrap_auth_uid s = (u @ name @ ''('') @ ''auth.uid()'' @ v" by simp
  moreover have "auth_guard ([] @ (u @ name @ ''('')) (''auth.uid()'' @ v)"
    using auth_guard_after_paren [of "u @ name" v] by simp
  moreover have "''auth.uid()'' \<noteq> []" by simp
  ultimately have "matches_in auth_guard ''auth.uid()'' [] (wrap_auth_uid s)"
    using matches_in_occurrence [of auth_guard "[]" "u @ name @ ''(''" "''auth.uid()''" v]
    by simp
  then show False
    using wrap_output_quiet [OF same_context_refl, of "[]" s] by (simp add: wrap_auth_uid_def)
qed

lemma helper_rules_unreachable:
  "wrap_has_role (wrap_auth_uid s) = wrap_auth_uid s"
  "wrap_is_dev_admin (wrap_auth_uid s) = wrap_auth_uid s"
  "wrap_has_permission (wrap_auth_uid s) = wrap_auth_uid s"
  "wrap_is_event_manager (wrap_auth_uid s) = wrap_auth_uid s"
  using helper_pattern_quiet [of "''has_role''" s] helper_pattern_quiet [of "''is_dev_admin''" s]
    helper_pattern_quiet [of "''has_permission''" s]
    helper_pattern_quiet [of "''is_event_manager''" s]
  by (simp_all add: wrap_has_role_def wrap_is_dev_admin_def wrap_has_permission_def
      wrap_is_event_manager_def re_sub_no_match)

section \<open>Substitution: every occurrence\<close>

text \<open>No proper, non-empty prefix of \<^verbatim>\<open>auth.uid()\<close> is also a suffix of it, so two occurrences
  never overlap.\<close>

lemma auth_no_border:
  assumes "u \<noteq> []" "prefix ''auth.uid()'' (u @ ''auth.uid()'' @ v)"
  shows "prefix ''auth.uid()'' u"
proof -
  from assms(2) consider "prefix ''auth.uid()'' u"
    | us where "''auth.uid()'' = u @ us" "prefix us (''auth.uid()'' @ v)"
    using prefix_append [of "''auth.uid()''" u "''auth.uid()'' @ v"] by blast
  then show ?thesis
  proof cases
    case 1
    then show ?thesis .
  next
    case 2
    show ?thesis
    proof (cases us)
      case Nil
      with 2(1) show ?thesis by simp
    next
      case (Cons a us')
      with 2(2) have "a = CHR ''a''" by simp
      from assms(1) obtain b u' where "u = b # u'" by (cases u) auto
      with 2(1) Cons \<open>a = CHR ''a''\<close> have "''uth.uid()'' = u' @ CHR ''a'' # us'" by simp
      then have "CHR ''a'' \<in> set ''uth.uid()''" by (metis in_set_conv_decomp)
      then show ?thesis by simp
    qed
  qed
qed

lemma re_sub_auth_unmatched:
  "\<not> auth_guard pre (''auth.uid()'' @ v) \<Longrightarrow>
   re_sub auth_guard ''auth.uid()'' ''(SELECT auth.uid())'' pre (''auth.uid()'' @ v) =
   ''auth.uid()'' @ re_sub auth_guard ''auth.uid()'' ''(SELECT auth.uid())'' (pre @ ''auth.uid()'') v"
  by simp

lemma re_sub_auth_matched:
  "auth_guard pre (''auth.uid()'' @ v) \<Longrightarrow>
   re_sub auth_guard ''auth.uid()'' ''(SELECT auth.uid())'' pre (''auth.uid()'' @ v) =
   ''(SELECT auth.uid())'' @
   re_sub auth_guard ''auth.uid()'' ''(SELECT auth.uid())'' (pre @ ''auth.uid()'') v"
  by simp

lemma auth_guard_append: "u \<noteq> [] \<Longrightarrow> auth_guard pre (u @ w) = auth_guard pre u"
  by (cases u) (simp_all add: auth_guard_def word_boundary_def)

lemma re_sub_copy:
  "\<not> (pat \<noteq> [] \<and> guard pre (c # cs) \<and> prefix pat (c # cs)) \<Longrightarrow>
   re_sub guard pat repl pre (c # cs) = c # re_sub guard pat repl (pre @ [c]) cs"
  by auto

text \<open>
  The first substitution on a text with an occurrence of \<^verbatim>\<open>auth.uid()\<close>: the text before the
  occurrence, the occurrence and the text behind it are rewritten one after the other.
\<close>

lemma re_sub_auth_occurrence:
  "re_sub auth_guard ''auth.uid()'' ''(SELECT auth.uid())'' pre (u @ ''auth.uid()'' @ v) =
   re_sub auth_guard ''auth.uid()'' ''(SELECT auth.uid())'' pre u @
   (if auth_guard (pre @ u) (''auth.uid()'' @ v) then ''(SELECT auth.uid())'' else ''auth.uid()'') @
   re_sub auth_guard ''auth.uid()'' ''(SELECT auth.uid())'' (pre @ u @ ''auth.uid()'') v"
proof (induction u arbitrary: pre rule: length_induct)
  case (1 u)
  show ?case
  proof (cases rule: re_sub_step [where s = u and pat = "''auth.uid()''" and guard = auth_guard
        and pre = pre and repl = "''(SELECT auth.uid())''"])
    case Nil
    show ?thesis
    proof (cases "auth_guard pre (''auth.uid()'' @ v)")
      case True
      from re_sub_auth_matched [OF True] True show ?thesis
        unfolding Nil append_Nil append_Nil2 re_sub.simps(1) by (simp only: if_True)
    next
      case False
      from re_sub_auth_unmatched [OF False] False show ?thesis
        unfolding Nil append_Nil append_Nil2 re_sub.simps(1) by (simp only: if_False)
    qed
  next
    case (Match u')
    have "length u' < length u" unfolding Match(2) by (rule length_auth_append)
    with "1.IH" have IH:
      "re_sub auth_guard ''auth.uid()'' ''(SELECT auth.uid())'' (pre @ ''auth.uid()'')
         (u' @ ''auth.uid()'' @ v) =
       re_sub auth_guard ''auth.uid()'' ''(SELECT auth.uid())'' (pre @ ''auth.uid()'') u' @
       (if auth_guard ((pre @ ''auth.uid()'') @ u') (''auth.uid()'' @ v)
        then ''(SELECT auth.uid())'' else ''auth.uid()'') @
       re_sub auth_guard ''auth.uid()'' ''(SELECT auth.uid())''
         ((pre @ ''auth.uid()'') @ u' @ ''auth.uid()'') v"
      by blast
    have "auth_guard pre (''auth.uid()'' @ u')" using Match(3) unfolding Match(2) .
    then have "auth_guard pre (''auth.uid()'' @ (u' @ ''auth.uid()'' @ v))"
      using auth_guard_append [OF Match(1), of pre] by blast
    from re_sub_auth_matched [OF this]
    show ?thesis unfolding Match(4) unfolding Match(2) using IH by (simp only: append_assoc)
  next
    case (Copy c u')
    have IH:
      "re_sub auth_guard ''auth.uid()'' ''(SELECT auth.uid())'' (pre @ [c])
         (u' @ ''auth.uid()'' @ v) =
       re_sub auth_guard ''auth.uid()'' ''(SELECT auth.uid())'' (pre @ [c]) u' @
       (if auth_guard ((pre @ [c]) @ u') (''auth.uid()'' @ v)
        then ''(SELECT auth.uid())'' else ''auth.uid()'') @
       re_sub auth_guard ''auth.uid()'' ''(SELECT auth.uid())''
         ((pre @ [c]) @ u' @ ''auth.uid()'') v"
      using "1.IH" Copy(1) by simp
    have "u \<noteq> []" using Copy(1) by simp
    have "\<not> (''auth.uid()'' \<noteq> [] \<and> auth_guard pre (u @ ''auth.uid()'' @ v) \<and>
             prefix ''auth.uid()'' (u @ ''auth.uid()'' @ v))"
      using Copy(2) auth_guard_append [OF \<open>u \<noteq> []\<close>, of pre] auth_no_border [OF \<open>u \<noteq> []\<close>, of v]
      by blast
    then have "re_sub auth_guard ''auth.uid()'' ''(SELECT auth.uid())'' pre
          (c # (u' @ ''auth.uid()'' @ v)) =
        c # re_sub auth_guard ''auth.uid()'' ''(SELECT auth.uid())'' (pre @ [c])
          (u' @ ''auth.uid()'' @ v)"
      unfolding Copy(1) append_Cons by (rule re_sub_copy)
    then show ?thesis
      unfolding Copy(3) unfolding Copy(1) using IH
      by (simp only: append_assoc append_Cons append_Nil)
  qed
qed

lemma same_context_after_match: "same_context (u @ ''auth.uid()'') []"
  unfolding same_context_def
proof (intro allI impI)
  fix x :: string assume "CHR '')'' \<notin> set x"
  then show "suffix x (u @ ''auth.uid()'') = suffix x []"
    using suffix_snoc [of x "u @ ''auth.uid(''" "CHR '')''"] by auto
qed

lemma wrap_auth_uid_occurrence:
  "wrap_auth_uid (u @ ''auth.uid()'' @ v) =
   wrap_auth_uid u @
   (if auth_guard u (''auth.uid()'' @ v) then ''(SELECT auth.uid())'' else ''auth.uid()'') @
   wrap_auth_uid v"
  unfolding wrap_auth_uid_def
  using re_sub_auth_occurrence [of "[]" u v]
    re_sub_same_context [OF same_context_after_match, of u v]
  by (simp only: append_Nil)

lemma auth_guard_occurrence:
  "auth_guard u (''auth.uid()'' @ v) =
   (\<not> (suffix ''(SELECT '' u \<or> (u \<noteq> [] \<and> is_word_char (last u))))"
  by (simp add: auth_guard_def word_boundary_def is_word_char_def)

lemma wrap_auth_uid_nonempty: "s \<noteq> [] \<Longrightarrow> wrap_auth_uid s \<noteq> []"
  unfolding wrap_auth_uid_def by (rule re_sub_nonempty) simp_all

lemma optimize_clause_rule1:
  "optimize_clause (PyStr s) = (if s = [] then PyNone else PyStr (wrap_auth_uid s))"
  by (simp add: helper_rules_unreachable)

section \<open>Grouping, sorting and emitting: general facts\<close>

lemma keys_bucket_append: "map fst (bucket_append tables t p) = map fst tables"
  by (induction tables) (auto simp: bucket_append_def)

lemma keys_setdefault_empty:
  "map fst (setdefault_empty tables t) =
   (if t \<in> set (map fst tables) then map fst tables else map fst tables @ [t])"
  by (simp add: setdefault_empty_def)

lemma map_of_bucket_append:
  "map_of (bucket_append tables t p) t' =
   (if t' = t then map_option (\<lambda>b. b @ [p]) (map_of tables t) else map_of tables t')"
  by (induction tables) (auto simp: bucket_append_def)

lemma map_of_setdefault_empty:
  "map_of (setdefault_empty tables t) t' =
   (if t' = t \<and> t \<notin> set (map fst tables) then Some [] else map_of tables t')"
  by (auto simp: setdefault_empty_def map_add_def map_of_eq_None_iff [symmetric]
      split: option.splits dest: weak_map_of_SomeI)

lemma bucket_of_step:
  "bucket_of (bucket_append (setdefault_empty tables t) t p) t' =
   (if t' = t then bucket_of tables t @ [p] else bucket_of tables t')"
  by (auto simp: bucket_of_def map_of_bucket_append map_of_setdefault_empty
      map_of_eq_None_iff [symmetric] split: option.splits)

lemma keys_step:
  "map fst (bucket_append (setdefault_empty tables t) t p) =
   (if t \<in> set (map fst tables) then map fst tables else map fst tables @ [t])"
  by (simp only: keys_bucket_append keys_setdefault_empty)

lemma getitem_Inr: "getitem policy key = Inr v \<longleftrightarrow> policy key = Some v"
  by (simp add: getitem_def split: option.splits)

lemma table_names_Cons:
  "table_names (p # ps) =
   (case p ''tablename'' of None \<Rightarrow> table_names ps | Some t \<Rightarrow> insert t (table_names ps))"
  by (simp add: table_names_def List.map_filter_simps split: option.splits)

lemma table_names_Nil: "table_names [] = {}"
  by (simp add: table_names_def List.map_filter_simps)

text \<open>
  The grouping loop keeps the keys distinct, adds the table names of the policies it reads,
  and appends to each bucket the policies on that table in the order in which it reads them.
  It returns only when every policy has the key \<^verbatim>\<open>tablename\<close>.
\<close>

lemma group_policies_result:
  assumes "group_policies tables policies = Inr tables'" "distinct (map fst tables)"
  shows "distinct (map fst tables') \<and>
         set (map fst tables') = set (map fst tables) \<union> table_names policies \<and>
         (\<forall>t. bucket_of tables' t = bucket_of tables t @ filter (on_table t) policies) \<and>
         (\<forall>p \<in> set policies. p ''tablename'' \<noteq> None)"
  using assms
proof (induction policies arbitrary: tables)
  case Nil
  then show ?case by (simp add: table_names_Nil)
next
  case (Cons p ps)
  from Cons.prems(1) obtain t where t: "p ''tablename'' = Some t"
    and g: "group_policies (bucket_append (setdefault_empty tables t) t p) ps = Inr tables'"
    by (auto simp: getitem_Inr split: sum.splits)
  let ?T = "bucket_append (setdefault_empty tables t) t p"
  have d: "distinct (map fst ?T)" using Cons.prems(2) by (simp add: keys_step)
  note IH = Cons.IH [OF g d]
  have "\<And>t'. bucket_of ?T t' @ filter (on_table t') ps = bucket_of tables t' @ filter (on_table t') (p # ps)"
    using t by (simp add: bucket_of_step on_table_def)
  moreover have "set (map fst ?T) \<union> table_names ps = set (map fst tables) \<union> table_names (p # ps)"
    using t by (auto simp: keys_step table_names_Cons)
  ultimately show ?case using IH t by simp
qed


lemma the_strs_Some: "the_strs keys = Some ss \<Longrightarrow> keys = map PyStr ss"
proof (induction keys arbitrary: ss)
  case Nil
  then show ?case by simp
next
  case (Cons k keys)
  then show ?case by (cases k) (auto split: option.splits)
qed

lemma sorted_wrt_key_less_short: "length keys < 2 \<Longrightarrow> sorted_wrt key_less keys"
proof (cases keys)
  case Nil
  then show ?thesis by simp
next
  case (Cons k ks)
  assume "length keys < 2"
  with Cons have "ks = []" by simp
  with Cons show ?thesis by simp
qed

text \<open>The sorted keys are the keys, in strictly increasing order.\<close>

lemma sorted_keys_result:
  assumes "sorted_keys keys = Inr names" "distinct keys"
  shows "set names = set keys \<and> distinct names \<and> sorted_wrt key_less names \<and>
         length names = length keys"
proof (cases "length keys < 2")
  case True
  with assms have "names = keys" by (simp add: sorted_keys_def)
  with True assms(2) show ?thesis by (simp add: sorted_wrt_key_less_short)
next
  case False
  with assms(1) obtain ss where ss: "the_strs keys = Some ss" and names: "names = map PyStr (sort ss)"
    by (auto simp: sorted_keys_def split: option.splits)
  from the_strs_Some [OF ss] have keys: "keys = map PyStr ss" .
  with assms(2) have "distinct ss" by (simp add: distinct_map)
  then have "sorted_wrt (<) (sort ss)" by (simp add: strict_sorted_iff)
  then have "sorted_wrt key_less (map PyStr (sort ss))" by (simp add: sorted_wrt_map)
  with names keys \<open>distinct ss\<close> show ?thesis by (simp add: distinct_map inj_on_def)
qed

text \<open>The two emitting loops append what they write to the text they are given.\<close>

lemma emit_policies_result:
  "emit_policies migration_sql table_policies = Inr out \<Longrightarrow>
   out = migration_sql @ concat (map (\<lambda>policy. statement policy @ ''\<newline>'') table_policies) \<and>
   (\<forall>policy \<in> set table_policies. generate_policy_sql policy = Inr (statement policy))"
proof (induction table_policies arbitrary: migration_sql)
  case Nil
  then show ?case by simp
next
  case (Cons p ps)
  from Cons.prems obtain sql where sql: "generate_policy_sql p = Inr sql"
    and rest: "emit_policies (migration_sql @ sql @ ''\<newline>'') ps = Inr out"
    by (auto split: sum.splits)
  from sql have "statement p = sql" by (simp add: statement_def)
  with Cons.IH [OF rest] sql show ?case by simp
qed

lemma getbucket_Inr: "getbucket tables t = Inr b \<Longrightarrow> bucket_of tables t = b"
  by (auto simp: getbucket_def bucket_of_def split: option.splits)

lemma emit_tables_result:
  "emit_tables tables migration_sql tablenames = Inr out \<Longrightarrow>
   out = migration_sql @
     concat (map (\<lambda>t. banner t (length (bucket_of tables t)) @
                      concat (map (\<lambda>policy. statement policy @ ''\<newline>'') (bucket_of tables t)))
               tablenames) \<and>
   (\<forall>t \<in> set tablenames. \<forall>policy \<in> set (bucket_of tables t).
      generate_policy_sql policy = Inr (statement policy))"
proof (induction tablenames arbitrary: migration_sql)
  case Nil
  then show ?case by simp
next
  case (Cons t ts)
  from Cons.prems obtain b sql' where b: "getbucket tables t = Inr b"
    and e: "emit_policies (migration_sql @ banner t (length b)) b = Inr sql'"
    and rest: "emit_tables tables sql' ts = Inr out"
    by (auto split: sum.splits)
  from getbucket_Inr [OF b] have "bucket_of tables t = b" .
  with emit_policies_result [OF e] Cons.IH [OF rest] show ?case by simp
qed

lemma main_Inr:
  assumes "main policies = Inr doc"
  obtains tables tablenames migration_sql where
    "group_policies [] policies = Inr tables"
    "sorted_keys (map fst tables) = Inr tablenames"
    "emit_tables tables (header (length policies) (length tables)) tablenames = Inr migration_sql"
    "doc = migration_sql @ footer"
  using assms by (auto simp: main_def split: sum.splits)

text \<open>The document that \<open>main\<close> returns, in closed form.\<close>

lemma main_document:
  assumes "main policies = Inr doc"
  shows "\<exists>names. set names = table_names policies \<and> distinct names \<and> sorted_wrt key_less names \<and>
           doc = header (length policies) (length names) @
                 concat (map (table_section policies) names) @ footer \<and>
           (\<forall>policy \<in> set policies. generate_policy_sql policy = Inr (statement policy))"
proof -
  from assms obtain tables names migration_sql where
    g: "group_policies [] policies = Inr tables" and
    s: "sorted_keys (map fst tables) = Inr names" and
    e: "emit_tables tables (header (length policies) (length tables)) names = Inr migration_sql" and
    doc: "doc = migration_sql @ footer"
    by (rule main_Inr)
  from group_policies_result [OF g] have
    d: "distinct (map fst tables)" and
    k: "set (map fst tables) = table_names policies" and
    b: "\<And>t. bucket_of tables t = filter (on_table t) policies" and
    tn: "\<And>p. p \<in> set policies \<Longrightarrow> p ''tablename'' \<noteq> None"
    by (simp_all add: bucket_of_def)
  from sorted_keys_result [OF s d] k have
    n: "set names = table_names policies" "distinct names" "sorted_wrt key_less names"
       "length names = length tables"
    by simp_all
  from emit_tables_result [OF e] have
    out: "migration_sql = header (length policies) (length tables) @
            concat (map (table_section policies) names)" and
    ok: "\<And>t p. t \<in> set names \<Longrightarrow> p \<in> set (filter (on_table t) policies) \<Longrightarrow>
           generate_policy_sql p = Inr (statement p)"
    by (simp_all add: b table_section_def [abs_def])
  have "generate_policy_sql p = Inr (statement p)" if "p \<in> set policies" for p
  proof -
    from tn [OF that] obtain t where t: "p ''tablename'' = Some t" by auto
    with that have "t \<in> table_names policies"
      by (force simp: table_names_def List.map_filter_def)
    with n(1) t that ok [of t p] show ?thesis by (simp add: on_table_def)
  qed
  with n out doc show ?thesis by (intro exI [of _ names]) simp
qed


text \<open>The optimizer returns a non-empty string exactly for a non-empty string.\<close>

lemma truthy_optimize_clause: "truthy (optimize_clause clause) = truthy clause"
  by (cases clause) (simp_all add: helper_rules_unreachable wrap_auth_uid_nonempty)

lemma generate_policy_sql_present:
  assumes "policy ''tablename'' = Some tablename" "policy ''policyname'' = Some policyname"
    "policy ''cmd'' = Some cmd" "policy ''using_clause'' = Some u"
    "policy ''with_check_clause'' = Some w"
  shows \<open>generate_policy_sql policy = Inr (
     ''DROP POLICY IF EXISTS "'' @ fmt policyname @ ''" ON '' @ fmt tablename @ '';\<newline>'' @
     ''CREATE POLICY "'' @ fmt policyname @ ''"\<newline>'' @
     ''  ON '' @ fmt tablename @ '' FOR '' @ fmt cmd @ ''\<newline>'' @
     (if truthy (optimize_clause u)
      then ''  USING (\<newline>    '' @ fmt (optimize_clause u) @ ''\<newline>  )'' else []) @
     (if truthy (optimize_clause w)
      then ''\<newline>  WITH CHECK (\<newline>    '' @ fmt (optimize_clause w) @ ''\<newline>  )'' else []) @
     '';\<newline>'')\<close>
  using assms by (simp add: generate_policy_sql_def getitem_def Let_def)

lemma generate_policy_sql_Inr:
  assumes "generate_policy_sql policy = Inr sql"
  obtains tablename policyname cmd u w where
    "policy ''tablename'' = Some tablename" "policy ''policyname'' = Some policyname"
    "policy ''cmd'' = Some cmd" "policy ''using_clause'' = Some u"
    "policy ''with_check_clause'' = Some w"
  using assms by (auto simp: generate_policy_sql_def getitem_def split: option.splits)

lemma generate_policy_sql_Inl:
  assumes "generate_policy_sql policy = Inl e"
  shows "\<exists>key \<in> set required_keys. policy key = None \<and> e = KeyError (PyStr key)"
  using assms
  by (auto simp: generate_policy_sql_def getitem_def required_keys_def Let_def
      split: option.splits)

lemma fmt_nat_digit: "n < 10 \<Longrightarrow> fmt_nat n = [digit_char n]"
  by (simp add: fmt_nat.simps)

text \<open>\<open>fmt_nat\<close> writes the decimal digits of its argument.\<close>

lemma decimal_value_fmt_nat: "decimal_value (fmt_nat n) = n"
proof (induction n rule: fmt_nat.induct)
  case (1 n)
  have d: "of_char (digit_char k) - 48 = k" if "k < 10" for k :: nat
    using that by (simp add: digit_char_def)
  show ?case
  proof (cases "n < 10")
    case True
    then show ?thesis by (simp add: fmt_nat.simps [of n] decimal_value_def d)
  next
    case False
    with "1.IH" have "decimal_value (fmt_nat (n div 10)) = n div 10" by simp
    with False d [of "n mod 10"] show ?thesis
      by (simp add: fmt_nat.simps [of n] decimal_value_def)
  qed
qed

lemma group_policies_succeeds:
  "\<forall>p \<in> set policies. p ''tablename'' \<noteq> None \<Longrightarrow>
   \<exists>tables'. group_policies tables policies = Inr tables'"
  by (induction policies arbitrary: tables) (auto simp: getitem_def)

lemma emit_policies_succeeds:
  "\<forall>p \<in> set table_policies. \<exists>sql. generate_policy_sql p = Inr sql \<Longrightarrow>
   \<exists>out. emit_policies migration_sql table_policies = Inr out"
  by (induction table_policies arbitrary: migration_sql) auto

lemma emit_tables_succeeds:
  assumes "set tablenames \<subseteq> set (map fst tables)"
    "\<forall>t \<in> set tablenames. \<forall>p \<in> set (bucket_of tables t). \<exists>sql. generate_policy_sql p = Inr sql"
  shows "\<exists>out. emit_tables tables migration_sql tablenames = Inr out"
  using assms
proof (induction tablenames arbitrary: migration_sql)
  case Nil
  then show ?case by simp
next
  case (Cons t ts)
  from Cons.prems(1) obtain b where b: "map_of tables t = Some b"
    by (cases "map_of tables t") (auto simp: map_of_eq_None_iff)
  then have "bucket_of tables t = b" by (simp add: bucket_of_def)
  with Cons.prems(2) have "\<forall>p \<in> set b. \<exists>sql. generate_policy_sql p = Inr sql" by auto
  from emit_policies_succeeds [OF this]
  obtain sql' where "emit_policies (migration_sql @ banner t (length b)) b = Inr sql'" by blast
  moreover from Cons.IH [of sql'] Cons.prems
  obtain out where "emit_tables tables sql' ts = Inr out" by auto
  ultimately show ?case using b by (simp add: getbucket_def)
qed

lemma the_strs_no_None: "PyNone \<notin> set keys \<Longrightarrow> the_strs keys \<noteq> None"
proof (induction keys)
  case Nil
  then show ?case by simp
next
  case (Cons k keys)
  then show ?case by (cases k) auto
qed

lemma sorted_keys_succeeds:
  "PyNone \<notin> set keys \<or> length keys < 2 \<Longrightarrow> \<exists>names. sorted_keys keys = Inr names"
  using the_strs_no_None [of keys] by (auto simp: sorted_keys_def split: option.splits)

lemma sorted_keys_Inr:
  assumes "sorted_keys keys = Inr names"
  shows "PyNone \<notin> set keys \<or> length keys < 2"
proof (cases "length keys < 2")
  case True
  then show ?thesis ..
next
  case False
  with assms obtain ss where "the_strs keys = Some ss"
    by (auto simp: sorted_keys_def split: option.splits)
  from the_strs_Some [OF this] show ?thesis by auto
qed

text \<open>
  \<open>main\<close> returns a document exactly when every record has the five keys and the table
  names can be sorted: none of them is \<^verbatim>\<open>None\<close>, or \<^verbatim>\<open>None\<close> is the only one.
\<close>

lemma main_succeeds_if:
  assumes "\<forall>p \<in> set policies. \<forall>key \<in> set required_keys. p key \<noteq> None"
    and "PyNone \<notin> table_names policies \<or> table_names policies \<subseteq> {PyNone}"
  shows "\<exists>doc. main policies = Inr doc"
proof -
  have gen: "\<exists>sql. generate_policy_sql p = Inr sql" if "p \<in> set policies" for p
    using assms(1) that generate_policy_sql_Inl [of p]
    by (cases "generate_policy_sql p") force+
  have "\<forall>p \<in> set policies. p ''tablename'' \<noteq> None"
    using assms(1) by (simp add: required_keys_def)
  from group_policies_succeeds [OF this]
  obtain tables where g: "group_policies [] policies = Inr tables" by blast
  from group_policies_result [OF g] have
    d: "distinct (map fst tables)" and
    k: "set (map fst tables) = table_names policies" and
    b: "\<And>t. bucket_of tables t = filter (on_table t) policies"
    by (simp_all add: bucket_of_def)
  have "PyNone \<notin> set (map fst tables) \<or> length (map fst tables) < 2"
  proof (cases "PyNone \<in> table_names policies")
    case True
    with assms(2) k have "set (map fst tables) \<subseteq> {PyNone}" by simp
    then have "card (set (map fst tables)) \<le> card {PyNone}"
      by (intro card_mono) simp_all
    with distinct_card [OF d] have "length (map fst tables) \<le> 1" by simp
    then show ?thesis by simp
  next
    case False
    with k show ?thesis by simp
  qed
  from sorted_keys_succeeds [OF this]
  obtain names where s: "sorted_keys (map fst tables) = Inr names" by blast
  from sorted_keys_result [OF s d] have "set names \<subseteq> set (map fst tables)" by simp
  moreover have "\<forall>t \<in> set names. \<forall>p \<in> set (bucket_of tables t).
      \<exists>sql. generate_policy_sql p = Inr sql"
    using gen by (simp add: b)
  ultimately obtain out
    where "emit_tables tables (header (length policies) (length tables)) names = Inr out"
    using emit_tables_succeeds by blast
  with g s show ?thesis by (simp add: main_def)
qed

lemma main_succeeds_only_if:
  assumes "main policies = Inr doc"
  shows "(\<forall>p \<in> set policies. \<forall>key \<in> set required_keys. p key \<noteq> None) \<and>
         (PyNone \<notin> table_names policies \<or> table_names policies \<subseteq> {PyNone})"
proof
  from main_document [OF assms]
  have "\<forall>p \<in> set policies. generate_policy_sql p = Inr (statement p)" by blast
  then show "\<forall>p \<in> set policies. \<forall>key \<in> set required_keys. p key \<noteq> None"
    by (auto simp: required_keys_def elim!: generate_policy_sql_Inr)
  from assms obtain tables names where
    g: "group_policies [] policies = Inr tables" and
    s: "sorted_keys (map fst tables) = Inr names"
    by (rule main_Inr)
  from group_policies_result [OF g] have
    d: "distinct (map fst tables)" and
    k: "set (map fst tables) = table_names policies"
    by simp_all
  from sorted_keys_Inr [OF s] show "PyNone \<notin> table_names policies \<or> table_names policies \<subseteq> {PyNone}"
  proof
    assume "PyNone \<notin> set (map fst tables)"
    with k show ?thesis by simp
  next
    assume "length (map fst tables) < 2"
    then have "map fst tables = [] \<or> (\<exists>t. map fst tables = [t])"
      by (cases "map fst tables") (auto simp: length_Suc_conv)
    then have "table_names policies = {} \<or> (\<exists>t. table_names policies = {t})"
      using k by (metis empty_set list.simps(15))
    then show ?thesis by auto
  qed
qed

lemma main_succeeds_iff:
  "(\<exists>doc. main policies = Inr doc) \<longleftrightarrow>
   (\<forall>p \<in> set policies. \<forall>key \<in> set required_keys. p key \<noteq> None) \<and>
   (PyNone \<notin> table_names policies \<or> table_names policies \<subseteq> {PyNone})"
  using main_succeeds_if [of policies] main_succeeds_only_if [of policies] by blast

lemma indicator_sum_list:
  "distinct names \<Longrightarrow>
   sum_list (map (\<lambda>t. if t = a then {#p#} else {#}) names) =
   (if a \<in> set names then {#p#} else {#})"
  by (induction names) auto

text \<open>
  Filtering a list of policies by each name of a duplicate-free list of table names that
  covers them yields every policy exactly once.
\<close>

lemma mset_buckets:
  assumes "distinct names" "\<forall>p \<in> set policies. \<exists>t \<in> set names. p ''tablename'' = Some t"
  shows "mset (concat (map (\<lambda>t. filter (on_table t) policies) names)) = mset policies"
  using assms(2)
proof (induction policies)
  case Nil
  then show ?case by (simp add: mset_concat comp_def)
next
  case (Cons p ps)
  then obtain a where a: "a \<in> set names" "p ''tablename'' = Some a" by auto
  have step: "mset (filter (on_table t) (p # ps)) =
      (if t = a then {#p#} else {#}) + mset (filter (on_table t) ps)" for t
    using a(2) by (auto simp: on_table_def)
  have "mset (concat (map (\<lambda>t. filter (on_table t) (p # ps)) names)) =
        sum_list (map (\<lambda>t. (if t = a then {#p#} else {#}) + mset (filter (on_table t) ps)) names)"
    by (simp only: mset_concat map_map comp_def step)
  also have "\<dots> = sum_list (map (\<lambda>t. if t = a then {#p#} else {#}) names) +
        sum_list (map (\<lambda>t. mset (filter (on_table t) ps)) names)"
    by (simp add: sum_list_addf)
  also have "\<dots> = {#p#} + mset (concat (map (\<lambda>t. filter (on_table t) ps) names))"
    using a(1) assms(1) by (simp add: indicator_sum_list mset_concat comp_def)
  finally show ?case using Cons by simp
qed

lemma round_trip_statement:
  \<open>generate_policy_sql round_trip_policy = Inr
     (''DROP POLICY IF EXISTS "p1" ON orders;\<newline>'' @
      ''CREATE POLICY "p1"\<newline>'' @
      ''  ON orders FOR SELECT\<newline>'' @
      ''  USING (\<newline>'' @
      ''    (SELECT auth.uid()) = user_id\<newline>'' @
      ''  )'' @
      '';\<newline>'')\<close>
  by (simp add: generate_policy_sql_def getitem_def round_trip_policy_def
      wrap_auth_uid_def wrap_has_role_def wrap_is_dev_admin_def
      wrap_has_permission_def wrap_is_event_manager_def auth_guard_def no_guard_def
      word_boundary_def is_word_char_def suffix_to_prefix)

lemma round_trip_main:
  \<open>main [round_trip_policy] = Inr
     (header 1 1 @ banner (PyStr ''orders'') 1 @
      ''DROP POLICY IF EXISTS "p1" ON orders;\<newline>'' @
      ''CREATE POLICY "p1"\<newline>'' @
      ''  ON orders FOR SELECT\<newline>'' @
      ''  USING (\<newline>'' @
      ''    (SELECT auth.uid()) = user_id\<newline>'' @
      ''  )'' @
      '';\<newline>'' @
      ''\<newline>'' @ footer)\<close>
proof -
  have t: "getitem round_trip_policy ''tablename'' = Inr (PyStr ''orders'')"
    by (simp add: getitem_def round_trip_policy_def)
  show ?thesis
    by (simp add: main_def t setdefault_empty_def bucket_append_def sorted_keys_def getbucket_def
        round_trip_statement)
qed

section \<open>The clause optimizer: results\<close>

text \<open>
  C1. The optimizer is idempotent: applying it to its own result changes nothing, for the
  absent value, the empty string and every clause string. In particular the wrapped call
  \<^verbatim>\<open>(SELECT auth.uid())\<close> is not wrapped again.
\<close>

theorem optimize_clause_idempotent:
  "optimize_clause (optimize_clause clause) = optimize_clause clause \<and>
   optimize_clause (PyStr ''(SELECT auth.uid())'') = PyStr ''(SELECT auth.uid())''"
proof
  show "optimize_clause (optimize_clause clause) = optimize_clause clause"
  proof (cases clause)
    case PyNone
    then show ?thesis by simp
  next
    case (PyStr s)
    show ?thesis
    proof (cases "s = []")
      case True
      with PyStr show ?thesis by simp
    next
      case False
      then have "wrap_auth_uid s \<noteq> []" by (rule wrap_auth_uid_nonempty)
      with False PyStr show ?thesis
        by (simp only: optimize_clause_rule1 wrap_auth_uid_idem if_False)
    qed
  qed
  have "wrap_auth_uid ''(SELECT auth.uid())'' = ''(SELECT auth.uid())''"
    using wrap_auth_uid_idem [of "''auth.uid()''"]
    by (simp add: wrap_auth_uid_def auth_guard_def word_boundary_def is_word_char_def)
  then show "optimize_clause (PyStr ''(SELECT auth.uid())'') = PyStr ''(SELECT auth.uid())''"
    by (simp only: optimize_clause_rule1) simp
qed

text \<open>
  C2, as the code has it. For every occurrence of \<^verbatim>\<open>auth.uid()\<close> in a clause, that is for
  every way to write the clause as \<open>u @ ''auth.uid()'' @ v\<close>: the occurrence is left as it is
  when the text before it ends with \<^verbatim>\<open>(SELECT \<close> or with a word character (a letter, a
  digit or an underscore, by the \<^verbatim>\<open>\b\<close> of the pattern), and is replaced by
  \<^verbatim>\<open>(SELECT auth.uid())\<close> otherwise; the text before and the text behind the occurrence
  are rewritten on their own.
\<close>

theorem wrap_auth_uid_every_occurrence:
  "wrap_auth_uid (u @ ''auth.uid()'' @ v) =
   wrap_auth_uid u @
   (if suffix ''(SELECT '' u \<or> (u \<noteq> [] \<and> is_word_char (last u))
    then ''auth.uid()'' else ''(SELECT auth.uid())'') @
   wrap_auth_uid v"
  unfolding wrap_auth_uid_occurrence auth_guard_occurrence
  by (cases "suffix ''(SELECT '' u \<or> (u \<noteq> [] \<and> is_word_char (last u))")
    (simp_all only: if_True if_False simp_thms)

theorem wrap_auth_uid_every_occurrence_witness:
  "wrap_auth_uid (''x = '' @ ''auth.uid()'' @ '' or y'') =
   ''x = '' @ ''(SELECT auth.uid())'' @ '' or y''"
  using wrap_auth_uid_every_occurrence [of "''x = ''" "'' or y''"]
  by (simp add: wrap_auth_uid_def is_word_char_def suffix_to_prefix)

text \<open>
  C2 as the specification states it fails: an occurrence that follows a word character is not
  preceded by \<^verbatim>\<open>(SELECT \<close>, and yet it is not replaced.
\<close>

theorem wrap_auth_uid_after_word_char_counterexample:
  "\<not> suffix ''(SELECT '' ''x'' \<and>
   wrap_auth_uid (''x'' @ ''auth.uid()'') = ''x'' @ ''auth.uid()'' \<and>
   optimize_clause (PyStr ''xauth.uid()'') = PyStr ''xauth.uid()''"
  by (simp add: wrap_auth_uid_def wrap_has_role_def wrap_is_dev_admin_def
      wrap_has_permission_def wrap_is_event_manager_def auth_guard_def no_guard_def
      word_boundary_def is_word_char_def suffix_to_prefix)

text \<open>
  C3. After the first substitution the four helper-specific substitutions find nothing to
  replace, so the optimizer computes what its first substitution alone computes.
\<close>

theorem optimize_clause_is_rule1_only:
  "optimize_clause clause = optimize_clause_rule1_only clause \<and>
   wrap_has_role (wrap_auth_uid s) = wrap_auth_uid s \<and>
   wrap_is_dev_admin (wrap_auth_uid s) = wrap_auth_uid s \<and>
   wrap_has_permission (wrap_auth_uid s) = wrap_auth_uid s \<and>
   wrap_is_event_manager (wrap_auth_uid s) = wrap_auth_uid s"
  by (cases clause) (simp_all only: helper_rules_unreachable optimize_clause_rule1
      optimize_clause_rule1_only.simps optimize_clause.simps simp_thms)

text \<open>
  C4. For the clause \<^verbatim>\<open>has_role(auth.uid(), 'admin')\<close> the optimizer returns
  \<^verbatim>\<open>has_role((SELECT auth.uid()), 'admin')\<close>.
\<close>

theorem optimize_clause_has_role_example:
  \<open>optimize_clause (PyStr ''has_role(auth.uid(), 'admin')'') =
   PyStr ''has_role((SELECT auth.uid()), 'admin')''\<close>
  by (simp add: wrap_auth_uid_def wrap_has_role_def wrap_is_dev_admin_def
      wrap_has_permission_def wrap_is_event_manager_def auth_guard_def no_guard_def
      word_boundary_def is_word_char_def suffix_to_prefix)

section \<open>The examples, evaluated\<close>

lemma three_policies_main:
  \<open>main [orders_policy_1, orders_policy_2, accounts_policy] = Inr
     (header 3 2 @
      banner (PyStr ''accounts'') 1 @
      (''DROP POLICY IF EXISTS "admins" ON accounts;\<newline>'' @
       ''CREATE POLICY "admins"\<newline>'' @
       ''  ON accounts FOR ALL\<newline>'' @
       ''  USING (\<newline>'' @
       ''    is_dev_admin((SELECT auth.uid()))\<newline>'' @
       ''  )'' @
       '';\<newline>'') @ ''\<newline>'' @
      banner (PyStr ''orders'') 2 @
      (''DROP POLICY IF EXISTS "read_own" ON orders;\<newline>'' @
       ''CREATE POLICY "read_own"\<newline>'' @
       ''  ON orders FOR SELECT\<newline>'' @
       ''  USING (\<newline>'' @
       ''    (SELECT auth.uid()) = user_id\<newline>'' @
       ''  )'' @
       '';\<newline>'') @ ''\<newline>'' @
      (''DROP POLICY IF EXISTS "add_own" ON orders;\<newline>'' @
       ''CREATE POLICY "add_own"\<newline>'' @
       ''  ON orders FOR INSERT\<newline>'' @
       ''\<newline>  WITH CHECK (\<newline>'' @
       ''    (SELECT auth.uid()) = user_id\<newline>'' @
       ''  )'' @
       '';\<newline>'') @ ''\<newline>'' @
      footer)\<close>
proof -
  have t: "getitem orders_policy_1 ''tablename'' = Inr (PyStr ''orders'')"
    "getitem orders_policy_2 ''tablename'' = Inr (PyStr ''orders'')"
    "getitem accounts_policy ''tablename'' = Inr (PyStr ''accounts'')"
    by (simp_all add: getitem_def orders_policy_1_def orders_policy_2_def accounts_policy_def)
  have s: \<open>generate_policy_sql accounts_policy = Inr
      (''DROP POLICY IF EXISTS "admins" ON accounts;\<newline>'' @
       ''CREATE POLICY "admins"\<newline>'' @
       ''  ON accounts FOR ALL\<newline>'' @
       ''  USING (\<newline>'' @
       ''    is_dev_admin((SELECT auth.uid()))\<newline>'' @
       ''  )'' @
       '';\<newline>'')\<close>
    \<open>generate_policy_sql orders_policy_1 = Inr
      (''DROP POLICY IF EXISTS "read_own" ON orders;\<newline>'' @
       ''CREATE POLICY "read_own"\<newline>'' @
       ''  ON orders FOR SELECT\<newline>'' @
       ''  USING (\<newline>'' @
       ''    (SELECT auth.uid()) = user_id\<newline>'' @
       ''  )'' @
       '';\<newline>'')\<close>
    \<open>generate_policy_sql orders_policy_2 = Inr
      (''DROP POLICY IF EXISTS "add_own" ON orders;\<newline>'' @
       ''CREATE POLICY "add_own"\<newline>'' @
       ''  ON orders FOR INSERT\<newline>'' @
       ''\<newline>  WITH CHECK (\<newline>'' @
       ''    (SELECT auth.uid()) = user_id\<newline>'' @
       ''  )'' @
       '';\<newline>'')\<close>
    by (simp_all add: generate_policy_sql_def getitem_def orders_policy_1_def
        orders_policy_2_def accounts_policy_def
        wrap_auth_uid_def wrap_has_role_def wrap_is_dev_admin_def
        wrap_has_permission_def wrap_is_event_manager_def auth_guard_def no_guard_def
        word_boundary_def is_word_char_def suffix_to_prefix)
  have neq: "orders_policy_1 \<noteq> accounts_policy" "orders_policy_2 \<noteq> accounts_policy"
    using t by auto
  have srt: "sort [''orders'', ''accounts''] = [''accounts'', ''orders'']"
    by code_simp
  show ?thesis
    by (simp add: main_def t s setdefault_empty_def bucket_append_def sorted_keys_def
        getbucket_def srt numeral_2_eq_2 numeral_3_eq_3)
qed


lemma table_names_three:
  "table_names [orders_policy_1, orders_policy_2, accounts_policy] =
   {PyStr ''orders'', PyStr ''accounts''}"
  by (auto simp: table_names_def List.map_filter_def orders_policy_1_def orders_policy_2_def
      accounts_policy_def)

section \<open>The statement of one policy: results\<close>

text \<open>
  C5. When \<open>generate_policy_sql\<close> returns a statement, the record has its five keys, and the
  statement is the three lines with the names and the command, then the USING block if and
  only if the optimized using-clause is non-empty, then the WITH CHECK block if and only if
  the optimized with-check clause is non-empty, then the terminator. The optimized clause
  is non-empty exactly when the clause is, and for an absent or empty clause the optimizer
  returns \<^verbatim>\<open>None\<close>, so that no text at all is written for it.
\<close>

theorem generate_policy_sql_blocks:
  assumes "generate_policy_sql policy = Inr sql"
  shows \<open>\<exists>tablename policyname cmd u w.
     policy ''tablename'' = Some tablename \<and> policy ''policyname'' = Some policyname \<and>
     policy ''cmd'' = Some cmd \<and> policy ''using_clause'' = Some u \<and>
     policy ''with_check_clause'' = Some w \<and>
     sql =
       ''DROP POLICY IF EXISTS "'' @ fmt policyname @ ''" ON '' @ fmt tablename @ '';\<newline>'' @
       ''CREATE POLICY "'' @ fmt policyname @ ''"\<newline>'' @
       ''  ON '' @ fmt tablename @ '' FOR '' @ fmt cmd @ ''\<newline>'' @
       (if truthy (optimize_clause u)
        then ''  USING (\<newline>    '' @ fmt (optimize_clause u) @ ''\<newline>  )'' else []) @
       (if truthy (optimize_clause w)
        then ''\<newline>  WITH CHECK (\<newline>    '' @ fmt (optimize_clause w) @ ''\<newline>  )'' else []) @
       '';\<newline>'' \<and>
     truthy (optimize_clause u) = (u \<noteq> PyNone \<and> u \<noteq> PyStr []) \<and>
     truthy (optimize_clause w) = (w \<noteq> PyNone \<and> w \<noteq> PyStr []) \<and>
     (u = PyNone \<or> u = PyStr [] \<longrightarrow> optimize_clause u = PyNone) \<and>
     (w = PyNone \<or> w = PyStr [] \<longrightarrow> optimize_clause w = PyNone)\<close>
proof -
  from assms obtain tablename policyname cmd u w where
    k: "policy ''tablename'' = Some tablename" "policy ''policyname'' = Some policyname"
       "policy ''cmd'' = Some cmd" "policy ''using_clause'' = Some u"
       "policy ''with_check_clause'' = Some w"
    by (rule generate_policy_sql_Inr)
  have t: "truthy v = (v \<noteq> PyNone \<and> v \<noteq> PyStr [])" for v
    by (cases v) simp_all
  have n: "v = PyNone \<or> v = PyStr [] \<longrightarrow> optimize_clause v = PyNone" for v
    by auto
  from generate_policy_sql_present [OF k] assms
  have \<open>sql =
       ''DROP POLICY IF EXISTS "'' @ fmt policyname @ ''" ON '' @ fmt tablename @ '';\<newline>'' @
       ''CREATE POLICY "'' @ fmt policyname @ ''"\<newline>'' @
       ''  ON '' @ fmt tablename @ '' FOR '' @ fmt cmd @ ''\<newline>'' @
       (if truthy (optimize_clause u)
        then ''  USING (\<newline>    '' @ fmt (optimize_clause u) @ ''\<newline>  )'' else []) @
       (if truthy (optimize_clause w)
        then ''\<newline>  WITH CHECK (\<newline>    '' @ fmt (optimize_clause w) @ ''\<newline>  )'' else []) @
       '';\<newline>''\<close>
    by (simp only: sum.inject)
  with k t [of u] t [of w] n [of u] n [of w] truthy_optimize_clause [of u]
    truthy_optimize_clause [of w]
  show ?thesis by blast
qed

theorem generate_policy_sql_blocks_witness:
  \<open>generate_policy_sql round_trip_policy = Inr
     (''DROP POLICY IF EXISTS "p1" ON orders;\<newline>'' @
      ''CREATE POLICY "p1"\<newline>'' @
      ''  ON orders FOR SELECT\<newline>'' @
      ''  USING (\<newline>'' @
      ''    (SELECT auth.uid()) = user_id\<newline>'' @
      ''  )'' @
      '';\<newline>'') \<and>
   (\<exists>u w. round_trip_policy ''using_clause'' = Some u \<and>
      round_trip_policy ''with_check_clause'' = Some w \<and>
      truthy (optimize_clause u) \<and> \<not> truthy (optimize_clause w))\<close>
proof -
  from generate_policy_sql_blocks [OF round_trip_statement]
  obtain u w where "round_trip_policy ''using_clause'' = Some u"
    "round_trip_policy ''with_check_clause'' = Some w"
    "truthy (optimize_clause u) = (u \<noteq> PyNone \<and> u \<noteq> PyStr [])"
    "truthy (optimize_clause w) = (w \<noteq> PyNone \<and> w \<noteq> PyStr [])"
    by blast
  moreover from this(1,2) have "u = PyStr ''auth.uid() = user_id''" "w = PyNone"
    by (simp_all add: round_trip_policy_def)
  ultimately show ?thesis using round_trip_statement by auto
qed

text \<open>
  C10. \<open>generate_policy_sql\<close> returns a statement exactly for the records that have all five
  keys. For any other record it fails with a \<^verbatim>\<open>KeyError\<close> that names a missing key, and
  with no other error. A clause whose key is present with the value \<^verbatim>\<open>None\<close> or the empty
  string is accepted.
\<close>

theorem generate_policy_sql_requires_keys:
  "((\<exists>sql. generate_policy_sql policy = Inr sql) \<longleftrightarrow>
      (\<forall>key \<in> set required_keys. policy key \<noteq> None)) \<and>
   (\<forall>e. generate_policy_sql policy = Inl e \<longrightarrow>
      (\<exists>key \<in> set required_keys. policy key = None \<and> e = KeyError (PyStr key)))"
proof (intro conjI iffI allI impI)
  assume "\<exists>sql. generate_policy_sql policy = Inr sql"
  then obtain sql where "generate_policy_sql policy = Inr sql" ..
  then show "\<forall>key \<in> set required_keys. policy key \<noteq> None"
    by (rule generate_policy_sql_Inr) (simp add: required_keys_def)
next
  assume a: "\<forall>key \<in> set required_keys. policy key \<noteq> None"
  show "\<exists>sql. generate_policy_sql policy = Inr sql"
  proof (cases "generate_policy_sql policy")
    case (Inl e)
    from generate_policy_sql_Inl [OF this] a show ?thesis by blast
  next
    case (Inr sql)
    then show ?thesis by blast
  qed
next
  fix e assume "generate_policy_sql policy = Inl e"
  then show "\<exists>key \<in> set required_keys. policy key = None \<and> e = KeyError (PyStr key)"
    by (rule generate_policy_sql_Inl)
qed

theorem generate_policy_sql_requires_keys_witness:
  "no_check_key_policy ''with_check_clause'' = None \<and>
   generate_policy_sql no_check_key_policy = Inl (KeyError (PyStr ''with_check_clause'')) \<and>
   round_trip_policy ''with_check_clause'' = Some PyNone \<and>
   (\<exists>sql. generate_policy_sql round_trip_policy = Inr sql)"
proof -
  have "\<forall>key \<in> set required_keys. round_trip_policy key \<noteq> None"
    by (simp add: required_keys_def round_trip_policy_def)
  with generate_policy_sql_requires_keys [of round_trip_policy]
  have "\<exists>sql. generate_policy_sql round_trip_policy = Inr sql" by blast
  moreover have "\<not> (\<forall>key \<in> set required_keys. no_check_key_policy key \<noteq> None)"
    by (simp add: required_keys_def no_check_key_policy_def)
  with generate_policy_sql_requires_keys [of no_check_key_policy]
  obtain key where "key \<in> set required_keys" "no_check_key_policy key = None"
    "generate_policy_sql no_check_key_policy = Inl (KeyError (PyStr key))"
    by (cases "generate_policy_sql no_check_key_policy") blast+
  then have "generate_policy_sql no_check_key_policy = Inl (KeyError (PyStr ''with_check_clause''))"
    by (auto simp: required_keys_def no_check_key_policy_def)
  ultimately show ?thesis
    by (simp add: no_check_key_policy_def round_trip_policy_def)
qed

section \<open>The migration document: results\<close>

text \<open>
  C6. For the single record
  \<^verbatim>\<open>{"tablename":"orders","policyname":"p1","cmd":"SELECT",
    "using_clause":"auth.uid() = user_id","with_check_clause":null}\<close>
  the document is the header for one policy and one table, the banner of \<^verbatim>\<open>orders\<close> with
  one policy, the DROP and CREATE lines for \<^verbatim>\<open>p1\<close> with a USING block whose body is
  \<^verbatim>\<open>(SELECT auth.uid()) = user_id\<close>, an empty line and the footer; the text
  \<^verbatim>\<open>WITH CHECK\<close> occurs nowhere in it.
\<close>

theorem main_round_trip_example:
  \<open>\<exists>doc. main [round_trip_policy] = Inr doc \<and>
     doc =
       header 1 1 @ banner (PyStr ''orders'') 1 @
       ''DROP POLICY IF EXISTS "p1" ON orders;\<newline>'' @
       ''CREATE POLICY "p1"\<newline>'' @
       ''  ON orders FOR SELECT\<newline>'' @
       ''  USING (\<newline>'' @
       ''    (SELECT auth.uid()) = user_id\<newline>'' @
       ''  )'' @
       '';\<newline>'' @
       ''\<newline>'' @ footer \<and>
     \<not> sublist ''WITH CHECK'' doc\<close>
proof -
  have \<open>\<not> sublist ''WITH CHECK''
      (header 1 1 @ banner (PyStr ''orders'') 1 @
       ''DROP POLICY IF EXISTS "p1" ON orders;\<newline>'' @
       ''CREATE POLICY "p1"\<newline>'' @
       ''  ON orders FOR SELECT\<newline>'' @
       ''  USING (\<newline>'' @
       ''    (SELECT auth.uid()) = user_id\<newline>'' @
       ''  )'' @
       '';\<newline>'' @
       ''\<newline>'' @ footer)\<close>
    by (simp add: header_def banner_def footer_def fmt_nat_digit digit_char_def sublist_code)
  with round_trip_main show ?thesis by blast
qed

lemma digit_char_digit: "d < 10 \<Longrightarrow> digit_char d \<in> set ''0123456789''"
proof -
  assume "d < 10"
  then have "d \<in> {0, 1, 2, 3, 4, 5, 6, 7, 8, 9}" by auto
  then show ?thesis by (auto simp: digit_char_def char_of_eq_iff)
qed

lemma fmt_nat_1_2: "fmt_nat (Suc 0) = ''1''" "fmt_nat 2 = ''2''"
  by (simp_all add: fmt_nat_digit digit_char_def char_of_eq_iff)

text \<open>\<open>fmt_nat\<close> writes at least one character, and digits only.\<close>

lemma fmt_nat_digits: "fmt_nat n \<noteq> [] \<and> set (fmt_nat n) \<subseteq> set ''0123456789''"
proof (induction n rule: fmt_nat.induct)
  case (1 n)
  show ?case
  proof (cases "n < 10")
    case True
    with digit_char_digit [of n] show ?thesis by (simp add: fmt_nat.simps [of n])
  next
    case False
    with "1.IH" digit_char_digit [of "n mod 10"] show ?thesis
      by (simp add: fmt_nat.simps [of n])
  qed
qed

lemma fmt_case: "fmt t = (case t of PyNone \<Rightarrow> ''None'' | PyStr s \<Rightarrow> s)"
  by (cases t) simp_all

lemma table_names_on_table:
  "t \<in> table_names policies \<Longrightarrow> 0 < length (filter (on_table t) policies)"
  by (induction policies)
    (auto simp: table_names_Nil table_names_Cons on_table_def split: option.splits)

text \<open>
  C7. When \<open>main\<close> returns a document, there is a list of table names that holds exactly the
  table names of the input, each once, in strictly increasing lexicographic order, and the
  document is the header, then for each name of the list in turn the banner followed by the
  statements of the input policies on that table, then the footer. The banner is a line of
  dashes, the line \<^verbatim>\<open>-- TABLE: \<close> with the table name and, in parentheses, the number of
  input policies on that table followed by \<^verbatim>\<open> policies\<close>, a line of dashes and an empty
  line. That number is positive and is written with its decimal digits.
\<close>

theorem main_table_banners:
  assumes "main policies = Inr doc"
  shows \<open>\<exists>names.
     set names = table_names policies \<and> distinct names \<and> sorted_wrt key_less names \<and>
     doc = header (length policies) (length names) @
           concat (map (\<lambda>t.
               (''-- ----------------------------------------------------------------------------\<newline>'' @
                ''-- TABLE: '' @ (case t of PyNone \<Rightarrow> ''None'' | PyStr s \<Rightarrow> s) @ '' ('' @
                  fmt_nat (length (filter (on_table t) policies)) @ '' policies)\<newline>'' @
                ''-- ----------------------------------------------------------------------------\<newline>'' @
                ''\<newline>'') @
               concat (map (\<lambda>policy. statement policy @ ''\<newline>'')
                         (filter (on_table t) policies)))
             names) @
           footer \<and>
     (\<forall>t \<in> set names.
        0 < length (filter (on_table t) policies) \<and>
        fmt_nat (length (filter (on_table t) policies)) \<noteq> [] \<and>
        set (fmt_nat (length (filter (on_table t) policies))) \<subseteq> set ''0123456789'' \<and>
        decimal_value (fmt_nat (length (filter (on_table t) policies))) =
          length (filter (on_table t) policies))\<close>
proof -
  from main_document [OF assms] obtain names where
    n: "set names = table_names policies" "distinct names" "sorted_wrt key_less names" and
    doc: "doc = header (length policies) (length names) @
            concat (map (table_section policies) names) @ footer"
    by blast
  have ts: \<open>table_section policies = (\<lambda>t.
               (''-- ----------------------------------------------------------------------------\<newline>'' @
                ''-- TABLE: '' @ (case t of PyNone \<Rightarrow> ''None'' | PyStr s \<Rightarrow> s) @ '' ('' @
                  fmt_nat (length (filter (on_table t) policies)) @ '' policies)\<newline>'' @
                ''-- ----------------------------------------------------------------------------\<newline>'' @
                ''\<newline>'') @
               concat (map (\<lambda>policy. statement policy @ ''\<newline>'')
                         (filter (on_table t) policies)))\<close>
    by (rule ext) (simp add: table_section_def banner_def fmt_case)
  have c: "0 < length (filter (on_table t) policies)" if "t \<in> set names" for t
    using that n(1) table_names_on_table [of t policies] by simp
  show ?thesis
  proof (intro exI [of _ names] conjI ballI)
    show "doc = header (length policies) (length names) @
           concat (map (\<lambda>t.
               (''-- ----------------------------------------------------------------------------\<newline>'' @
                ''-- TABLE: '' @ (case t of PyNone \<Rightarrow> ''None'' | PyStr s \<Rightarrow> s) @ '' ('' @
                  fmt_nat (length (filter (on_table t) policies)) @ '' policies)\<newline>'' @
                ''-- ----------------------------------------------------------------------------\<newline>'' @
                ''\<newline>'') @
               concat (map (\<lambda>policy. statement policy @ ''\<newline>'')
                         (filter (on_table t) policies)))
             names) @
           footer"
      using doc unfolding ts .
  qed (use n c fmt_nat_digits decimal_value_fmt_nat in blast)+
qed

text \<open>
  For two policies on \<^verbatim>\<open>orders\<close> and one on \<^verbatim>\<open>accounts\<close>, given in this order, the list of
  names is \<^verbatim>\<open>accounts\<close>, \<^verbatim>\<open>orders\<close>, and the document has two banners, the one of
  \<^verbatim>\<open>accounts\<close> with one policy before the one of \<^verbatim>\<open>orders\<close> with two.
\<close>

theorem main_table_banners_witness:
  \<open>main [orders_policy_1, orders_policy_2, accounts_policy] = Inr
     (header 3 2 @
      (''-- ----------------------------------------------------------------------------\<newline>'' @
       ''-- TABLE: accounts (1 policies)\<newline>'' @
       ''-- ----------------------------------------------------------------------------\<newline>'' @
       ''\<newline>'') @
      (''DROP POLICY IF EXISTS "admins" ON accounts;\<newline>'' @
       ''CREATE POLICY "admins"\<newline>'' @
       ''  ON accounts FOR ALL\<newline>'' @
       ''  USING (\<newline>'' @
       ''    is_dev_admin((SELECT auth.uid()))\<newline>'' @
       ''  )'' @
       '';\<newline>'') @ ''\<newline>'' @
      (''-- ----------------------------------------------------------------------------\<newline>'' @
       ''-- TABLE: orders (2 policies)\<newline>'' @
       ''-- ----------------------------------------------------------------------------\<newline>'' @
       ''\<newline>'') @
      (''DROP POLICY IF EXISTS "read_own" ON orders;\<newline>'' @
       ''CREATE POLICY "read_own"\<newline>'' @
       ''  ON orders FOR SELECT\<newline>'' @
       ''  USING (\<newline>'' @
       ''    (SELECT auth.uid()) = user_id\<newline>'' @
       ''  )'' @
       '';\<newline>'') @ ''\<newline>'' @
      (''DROP POLICY IF EXISTS "add_own" ON orders;\<newline>'' @
       ''CREATE POLICY "add_own"\<newline>'' @
       ''  ON orders FOR INSERT\<newline>'' @
       ''\<newline>  WITH CHECK (\<newline>'' @
       ''    (SELECT auth.uid()) = user_id\<newline>'' @
       ''  )'' @
       '';\<newline>'') @ ''\<newline>'' @
      footer) \<and>
   (\<exists>names. set names = table_names [orders_policy_1, orders_policy_2, accounts_policy] \<and>
      distinct names \<and> sorted_wrt key_less names \<and>
      names = [PyStr ''accounts'', PyStr ''orders''])\<close>
proof
  show \<open>main [orders_policy_1, orders_policy_2, accounts_policy] = Inr
     (header 3 2 @
      (''-- ----------------------------------------------------------------------------\<newline>'' @
       ''-- TABLE: accounts (1 policies)\<newline>'' @
       ''-- ----------------------------------------------------------------------------\<newline>'' @
       ''\<newline>'') @
      (''DROP POLICY IF EXISTS "admins" ON accounts;\<newline>'' @
       ''CREATE POLICY "admins"\<newline>'' @
       ''  ON accounts FOR ALL\<newline>'' @
       ''  USING (\<newline>'' @
       ''    is_dev_admin((SELECT auth.uid()))\<newline>'' @
       ''  )'' @
       '';\<newline>'') @ ''\<newline>'' @
      (''-- ----------------------------------------------------------------------------\<newline>'' @
       ''-- TABLE: orders (2 policies)\<newline>'' @
       ''-- ----------------------------------------------------------------------------\<newline>'' @
       ''\<newline>'') @
      (''DROP POLICY IF EXISTS "read_own" ON orders;\<newline>'' @
       ''CREATE POLICY "read_own"\<newline>'' @
       ''  ON orders FOR SELECT\<newline>'' @
       ''  USING (\<newline>'' @
       ''    (SELECT auth.uid()) = user_id\<newline>'' @
       ''  )'' @
       '';\<newline>'') @ ''\<newline>'' @
      (''DROP POLICY IF EXISTS "add_own" ON orders;\<newline>'' @
       ''CREATE POLICY "add_own"\<newline>'' @
       ''  ON orders FOR INSERT\<newline>'' @
       ''\<newline>  WITH CHECK (\<newline>'' @
       ''    (SELECT auth.uid()) = user_id\<newline>'' @
       ''  )'' @
       '';\<newline>'') @ ''\<newline>'' @
      footer)\<close>
    unfolding three_policies_main by (simp add: banner_def fmt_nat_1_2)
  from main_table_banners [OF three_policies_main] obtain names where
    n: "set names = table_names [orders_policy_1, orders_policy_2, accounts_policy]"
       "distinct names" "sorted_wrt key_less names"
    by blast
  from n(1) have s: "set names = {PyStr ''orders'', PyStr ''accounts''}"
    by (simp only: table_names_three)
  with distinct_card [OF n(2)] have "length names = 2" by simp
  then obtain a b where ab: "names = [a, b]"
    by (auto simp: length_Suc_conv numeral_2_eq_2)
  with s n(3) have "names = [PyStr ''accounts'', PyStr ''orders'']"
    by (auto simp: doubleton_eq_iff)
  with n show "\<exists>names. set names = table_names [orders_policy_1, orders_policy_2, accounts_policy] \<and>
      distinct names \<and> sorted_wrt key_less names \<and>
      names = [PyStr ''accounts'', PyStr ''orders'']"
    by blast
qed

text \<open>
  C8. When \<open>main\<close> returns a document for \<open>N\<close> policies with \<open>T\<close> distinct table names, the
  document starts with the header for \<open>N\<close> and \<open>T\<close>, whose line \<^verbatim>\<open>-- Total:\<close> holds the
  decimal digits of \<open>N\<close> and of \<open>T\<close>.
\<close>

theorem main_header_counts:
  assumes "main policies = Inr doc"
  shows "prefix (header (length policies) (card (table_names policies))) doc \<and>
     sublist (''-- Total: '' @ fmt_nat (length policies) @ '' policies across '' @
              fmt_nat (card (table_names policies)) @ '' tables'') doc \<and>
     decimal_value (fmt_nat (length policies)) = length policies \<and>
     decimal_value (fmt_nat (card (table_names policies))) = card (table_names policies)"
proof (intro conjI)
  from main_document [OF assms] obtain names where
    n: "set names = table_names policies" "distinct names" and
    doc: "doc = header (length policies) (length names) @
            concat (map (table_section policies) names) @ footer"
    by blast
  from n have c: "length names = card (table_names policies)"
    using distinct_card [of names] by simp
  show p: "prefix (header (length policies) (card (table_names policies))) doc"
    unfolding doc c by (rule prefixI) (rule refl)
  define line where "line = ''-- Total: '' @ fmt_nat (length policies) @ '' policies across '' @
              fmt_nat (card (table_names policies)) @ '' tables''"
  have "header (length policies) (card (table_names policies)) =
      (''-- ============================================================================\<newline>'' @
       ''-- RLS Policy Optimization - Phase 8: COMPLETE DATABASE OPTIMIZATION\<newline>'' @
       ''-- ============================================================================\<newline>'' @
       ''--\<newline>'' @
       ''-- This migration fixes ALL remaining unoptimized RLS policies in the database.\<newline>'') @
      line @
      (''\<newline>'' @
       ''--\<newline>'' @
       ''-- Pattern: Wrap ALL auth.uid(), has_role(), is_dev_admin() calls in (SELECT ...)\<newline>'' @
       ''-- to ensure per-query evaluation instead of per-row evaluation.\<newline>'' @
       ''--\<newline>'' @
       ''-- Performance Impact: 10-100x faster queries, eliminates all performance warnings\<newline>'' @
       ''-- ============================================================================\<newline>'' @
       ''\<newline>'')"
    by (simp add: header_def line_def)
  then have "sublist line (header (length policies) (card (table_names policies)))"
    by (simp only: sublist_appendI)
  moreover have "sublist (header (length policies) (card (table_names policies))) doc"
    using p by (rule prefix_imp_sublist)
  ultimately have "sublist line doc"
    by (rule sublist_order.order.trans)
  then show "sublist (''-- Total: '' @ fmt_nat (length policies) @ '' policies across '' @
              fmt_nat (card (table_names policies)) @ '' tables'') doc"
    unfolding line_def .
  show "decimal_value (fmt_nat (length policies)) = length policies"
    by (rule decimal_value_fmt_nat)
  show "decimal_value (fmt_nat (card (table_names policies))) = card (table_names policies)"
    by (rule decimal_value_fmt_nat)
qed

theorem main_header_counts_witness:
  "(\<exists>doc. main [orders_policy_1, orders_policy_2, accounts_policy] = Inr doc \<and>
      prefix (header 3 2) doc) \<and>
   decimal_value (fmt_nat 3) = 3"
proof -
  have "card (table_names [orders_policy_1, orders_policy_2, accounts_policy]) = 2"
    by (simp add: table_names_three)
  with main_header_counts [OF three_policies_main] three_policies_main
  show ?thesis by (auto simp: numeral_3_eq_3)
qed

text \<open>
  C9. When \<open>main\<close> returns a document, the grouping has put into the bucket of each table
  the input policies on that table, in the order of the input. The document holds, under
  the banner of each table, the statements of that bucket in this order, and the buckets
  taken together hold every input policy exactly once.
\<close>

theorem main_preserves_input_order:
  assumes "main policies = Inr doc"
  shows "\<exists>tables names.
     group_policies [] policies = Inr tables \<and>
     (\<forall>t bucket. (t, bucket) \<in> set tables \<longrightarrow> bucket = filter (on_table t) policies) \<and>
     set names = fst ` set tables \<and>
     doc = header (length policies) (length names) @
           concat (map (\<lambda>t. banner t (length (filter (on_table t) policies)) @
                            concat (map (\<lambda>policy. statement policy @ ''\<newline>'')
                                      (filter (on_table t) policies)))
                     names) @
           footer \<and>
     mset (concat (map (\<lambda>t. filter (on_table t) policies) names)) = mset policies \<and>
     (\<forall>policy \<in> set policies. generate_policy_sql policy = Inr (statement policy))"
proof -
  from assms obtain tables names migration_sql where
    g: "group_policies [] policies = Inr tables" and
    s: "sorted_keys (map fst tables) = Inr names" and
    e: "emit_tables tables (header (length policies) (length tables)) names = Inr migration_sql" and
    doc: "doc = migration_sql @ footer"
    by (rule main_Inr)
  from group_policies_result [OF g] have
    d: "distinct (map fst tables)" and
    k: "set (map fst tables) = table_names policies" and
    b: "\<And>t. bucket_of tables t = filter (on_table t) policies" and
    tn: "\<And>p. p \<in> set policies \<Longrightarrow> p ''tablename'' \<noteq> None"
    by (simp_all add: bucket_of_def)
  have buckets: "bucket = filter (on_table t) policies" if "(t, bucket) \<in> set tables" for t bucket
  proof -
    from that d have "map_of tables t = Some bucket" by simp
    with b [of t] show ?thesis by (simp add: bucket_of_def)
  qed
  from sorted_keys_result [OF s d] have
    n: "set names = set (map fst tables)" "distinct names" "length names = length tables"
    by simp_all
  from emit_tables_result [OF e] have
    out: "migration_sql = header (length policies) (length tables) @
            concat (map (\<lambda>t. banner t (length (filter (on_table t) policies)) @
                            concat (map (\<lambda>policy. statement policy @ ''\<newline>'')
                                      (filter (on_table t) policies)))
                     names)" and
    ok: "\<And>t p. t \<in> set names \<Longrightarrow> p \<in> set (filter (on_table t) policies) \<Longrightarrow>
           generate_policy_sql p = Inr (statement p)"
    by (simp_all add: b)
  have covered: "\<exists>t \<in> set names. p ''tablename'' = Some t" if "p \<in> set policies" for p
  proof -
    from tn [OF that] obtain t where t: "p ''tablename'' = Some t" by auto
    with that have "t \<in> table_names policies"
      by (force simp: table_names_def List.map_filter_def)
    with n(1) k t show ?thesis by simp
  qed
  then have "mset (concat (map (\<lambda>t. filter (on_table t) policies) names)) = mset policies"
    using mset_buckets [OF n(2)] by blast
  moreover have "generate_policy_sql p = Inr (statement p)" if "p \<in> set policies" for p
    using covered [OF that] ok [of _ p] that by (auto simp: on_table_def)
  ultimately show ?thesis
    using g buckets n out doc by (intro exI [of _ tables] exI [of _ names]) simp
qed

theorem main_preserves_input_order_witness:
  "(\<exists>doc. main [orders_policy_1, orders_policy_2, accounts_policy] = Inr doc) \<and>
   filter (on_table (PyStr ''orders'')) [orders_policy_1, orders_policy_2, accounts_policy] =
     [orders_policy_1, orders_policy_2] \<and>
   (\<exists>names. mset (concat (map (\<lambda>t. filter (on_table t)
        [orders_policy_1, orders_policy_2, accounts_policy]) names)) =
      mset [orders_policy_1, orders_policy_2, accounts_policy])"
proof -
  have "filter (on_table (PyStr ''orders'')) [orders_policy_1, orders_policy_2, accounts_policy] =
     [orders_policy_1, orders_policy_2]"
    by (simp add: on_table_def orders_policy_1_def orders_policy_2_def accounts_policy_def)
  with main_preserves_input_order [OF three_policies_main] three_policies_main
  show ?thesis by blast
qed

end
